theory Spec2Isabelle
  imports Complex_Main
begin

section \<open>Python values, exceptions and the error monad\<close>

text \<open>
  The exceptions the modelled code can raise: an out-of-range list index, a missing
  dictionary key, a method missing on a value (\<open>[].items()\<close>), the circuit
  library's refusal of a gate argument, and the refusal of \<open>int\<close> to convert a string.
\<close>

datatype error = IndexError | KeyError | AttributeError | CircuitError | ValueError

definition bindE :: "error + 'a \<Rightarrow> ('a \<Rightarrow> error + 'b) \<Rightarrow> error + 'b" where
  "bindE m f = (case m of Inl e \<Rightarrow> Inl e | Inr x \<Rightarrow> f x)"

text \<open>
  A Python \<open>for\<close> loop whose body appends to one list: run the body on every element
  in order, stop at the first exception.
\<close>

fun concatE :: "('a \<Rightarrow> error + 'b list) \<Rightarrow> 'a list \<Rightarrow> error + 'b list" where
  "concatE f [] = Inr []"
| "concatE f (x # xs) =
     (case f x of
        Inl e \<Rightarrow> Inl e
      | Inr ys \<Rightarrow> (case concatE f xs of Inl e \<Rightarrow> Inl e | Inr zs \<Rightarrow> Inr (ys @ zs)))"

type_synonym matrix = "int list list"
type_synonym edge = "nat \<times> nat"

text \<open>\<open>adjacency_matrix[i][j]\<close> for indices produced by \<open>range\<close> (never negative).\<close>

definition cell :: "matrix \<Rightarrow> nat \<Rightarrow> nat \<Rightarrow> error + int" where
  "cell A i j =
     (if i < length A
      then (if j < length (A ! i) then Inr (A ! i ! j) else Inl IndexError)
      else Inl IndexError)"

text \<open>\<open>xs[i]\<close> for an arbitrary Python integer: a negative index counts from the end.\<close>

definition py_get :: "'a list \<Rightarrow> int \<Rightarrow> error + 'a" where
  "py_get xs i =
     (if 0 \<le> i \<and> i < int (length xs) then Inr (xs ! nat i)
      else if i < 0 \<and> - int (length xs) \<le> i then Inr (xs ! nat (int (length xs) + i))
      else Inl IndexError)"

section \<open>The satisfiability oracle\<close>

text \<open>
  The solver is external. Its integer variables are identified by their names
  (\<open>edge_i_j\<close>, \<open>CZ_i_j\<close>, \<open>I_i_j\<close>); the constraints are the five shapes the two
  encoders add. A solver maps the asserted constraints, in the order they were added, to
  a model (\<open>sat\<close>) or to nothing (anything else).
\<close>

datatype zvar = EdgeVar nat nat | CzVar nat nat | IdVar nat nat

datatype constr =
    GeC zvar int
  | LtC zvar int
  | NeqV zvar zvar
  | EqC zvar int
  | LtV zvar zvar

type_synonym model = "zvar \<Rightarrow> int"
type_synonym solver = "constr list \<Rightarrow> model option"

fun holds :: "model \<Rightarrow> constr \<Rightarrow> bool" where
  "holds m (GeC x c) = (m x \<ge> c)"
| "holds m (LtC x c) = (m x < c)"
| "holds m (NeqV x y) = (m x \<noteq> m y)"
| "holds m (EqC x c) = (m x = c)"
| "holds m (LtV x y) = (m x < m y)"

definition satisfies :: "model \<Rightarrow> constr list \<Rightarrow> bool" where
  "satisfies m cs = list_all (holds m) cs"

definition satisfiable :: "constr list \<Rightarrow> bool" where
  "satisfiable cs = (\<exists>m. satisfies m cs)"

text \<open>
  The contract assumed of the oracle on one instance: a returned model satisfies the
  instance, and no model is returned only when there is none.
\<close>

definition solver_ok :: "solver \<Rightarrow> constr list \<Rightarrow> bool" where
  "solver_ok s cs = (case s cs of None \<Rightarrow> \<not> satisfiable cs | Some m \<Rightarrow> satisfies m cs)"

section \<open>The layer mapping\<close>

text \<open>
  \<open>dict[int, list[tuple[int, int]]]\<close>: a Python dictionary iterates in insertion order,
  so it is an association list with distinct keys. \<open>dict_append\<close> is
  \<open>if color not in result: result[color] = []\<close> followed by
  \<open>result[color].append((i, j))\<close>.
\<close>

type_synonym mapping = "(int \<times> edge list) list"

fun dict_append :: "mapping \<Rightarrow> int \<Rightarrow> edge \<Rightarrow> mapping" where
  "dict_append [] c e = [(c, [e])]"
| "dict_append ((c', es) # rest) c e =
     (if c' = c then (c', es @ [e]) # rest else (c', es) # dict_append rest c e)"

text \<open>The loop over \<open>edge_color.items()\<close> that reads the model back.\<close>

definition read_model :: "model \<Rightarrow> (edge \<times> zvar) list \<Rightarrow> mapping" where
  "read_model m vars = foldl (\<lambda>result (e, x). dict_append result (m x) e) [] vars"

text \<open>\<open>d[key]\<close> on the dictionaries of solver variables.\<close>

definition lookup :: "(edge \<times> zvar) list \<Rightarrow> edge \<Rightarrow> error + zvar" where
  "lookup d k = (case map_of d k of None \<Rightarrow> Inl KeyError | Some x \<Rightarrow> Inr x)"

text \<open>\<open>s.add(a != b)\<close> and \<open>s.add(a < b)\<close>, the operands looked up left to right.\<close>

definition neq2 :: "error + zvar \<Rightarrow> error + zvar \<Rightarrow> error + constr list" where
  "neq2 a b = bindE a (\<lambda>x. bindE b (\<lambda>y. Inr [NeqV x y]))"

definition lt2 :: "error + zvar \<Rightarrow> error + zvar \<Rightarrow> error + constr list" where
  "lt2 a b = bindE a (\<lambda>x. bindE b (\<lambda>y. Inr [LtV x y]))"

section \<open>Edge-colouring encoder\<close>

text \<open>\<open>_synthesis\<close>, first loop: one variable per lower-triangle entry equal to 1.\<close>

definition ec_declare :: "matrix \<Rightarrow> error + (edge \<times> zvar) list" where
  "ec_declare A =
     concatE (\<lambda>i. concatE (\<lambda>j.
        bindE (cell A i j) (\<lambda>a. Inr (if a = 1 then [((i, j), EdgeVar i j)] else [])))
       [0..<i]) [0..<length A]"

definition ec_bounds :: "(edge \<times> zvar) list \<Rightarrow> int \<Rightarrow> constr list" where
  "ec_bounds edge_color depth = concat (map (\<lambda>(e, x). [GeC x 0, LtC x depth]) edge_color)"

text \<open>Second loop: adjacent edges get different colours.\<close>

definition ec_conflicts :: "matrix \<Rightarrow> (edge \<times> zvar) list \<Rightarrow> error + constr list" where
  "ec_conflicts A edge_color =
     concatE (\<lambda>i. concatE (\<lambda>j.
        bindE (cell A i j) (\<lambda>a.
          if a = 1 then
            bindE (concatE (\<lambda>k.
               bindE (cell A i k) (\<lambda>b.
                 if b = 1 then
                   (if i > k then neq2 (lookup edge_color (i, j)) (lookup edge_color (i, k))
                    else neq2 (lookup edge_color (i, j)) (lookup edge_color (k, i)))
                 else Inr []))
              [0..<j]) (\<lambda>c1.
            bindE (concatE (\<lambda>k.
               bindE (cell A k j) (\<lambda>b.
                 if b = 1 then
                   (if j > k then neq2 (lookup edge_color (i, j)) (lookup edge_color (j, k))
                    else neq2 (lookup edge_color (i, j)) (lookup edge_color (k, j)))
                 else Inr []))
              [0..<i]) (\<lambda>c2. Inr (c1 @ c2)))
          else Inr []))
       [0..<i]) [0..<length A]"

text \<open>
  Symmetry breaking: the first row with the largest sum, then its entries equal to 1
  get the colours 0, 1, 2, ... in column order.
\<close>

definition max_row :: "matrix \<Rightarrow> int \<times> int" where
  "max_row A =
     foldl (\<lambda>(max_ones, row_index) (i, row).
              if sum_list row > max_ones then (sum_list row, int i) else (max_ones, row_index))
       (-1, -1) (enumerate 0 A)"

definition lookup_int :: "(edge \<times> zvar) list \<Rightarrow> int \<times> int \<Rightarrow> error + zvar" where
  "lookup_int d k =
     (if fst k < 0 \<or> snd k < 0 then Inl KeyError else lookup d (nat (fst k), nat (snd k)))"

fun ec_fix :: "(edge \<times> zvar) list \<Rightarrow> int \<Rightarrow> (nat \<times> int) list \<Rightarrow> int \<Rightarrow> error + constr list" where
  "ec_fix edge_color r [] color = Inr []"
| "ec_fix edge_color r ((i, v) # rest) color =
     (if v \<noteq> 1 then ec_fix edge_color r rest color
      else bindE (if r > int i then lookup_int edge_color (r, int i)
                  else lookup_int edge_color (int i, r)) (\<lambda>x.
           bindE (ec_fix edge_color r rest (color + 1)) (\<lambda>cs. Inr (EqC x color # cs))))"

definition ec_symmetry :: "matrix \<Rightarrow> (edge \<times> zvar) list \<Rightarrow> error + constr list" where
  "ec_symmetry A edge_color =
     (let row_index_with_max_ones = snd (max_row A) in
      bindE (py_get A row_index_with_max_ones) (\<lambda>row.
        ec_fix edge_color row_index_with_max_ones (enumerate 0 row) 0))"

definition ec_constraints :: "matrix \<Rightarrow> int \<Rightarrow> bool \<Rightarrow> error + ((edge \<times> zvar) list \<times> constr list)" where
  "ec_constraints A depth use_symmetry_breaking =
     bindE (ec_declare A) (\<lambda>edge_color.
     bindE (ec_conflicts A edge_color) (\<lambda>c2.
     bindE (if use_symmetry_breaking then ec_symmetry A edge_color else Inr []) (\<lambda>c3.
       Inr (edge_color, ec_bounds edge_color depth @ c2 @ c3))))"

definition ec_synthesis :: "solver \<Rightarrow> matrix \<Rightarrow> int \<Rightarrow> bool \<Rightarrow> error + mapping" where
  "ec_synthesis s A depth use_symmetry_breaking =
     bindE (ec_constraints A depth use_symmetry_breaking) (\<lambda>(edge_color, cs).
       case s cs of
         Some m \<Rightarrow> Inr (read_model m edge_color)
       | None \<Rightarrow> Inr [])"

section \<open>Direct-scheduling encoder\<close>

text \<open>
  \<open>_synthesis\<close> of the second module, first loop: every lower-triangle pair gets a
  variable, \<open>CZ_i_j\<close> (in \<open>cz_gates\<close>, bounded by the depth) where the entry is 1 and
  \<open>I_i_j\<close> (in \<open>identities\<close>, only non-negative) elsewhere. The flag of a declaration
  tells which of the two dictionaries holds it.
\<close>

definition sat_declare :: "matrix \<Rightarrow> error + (bool \<times> edge) list" where
  "sat_declare A =
     concatE (\<lambda>i. concatE (\<lambda>j.
        bindE (cell A i j) (\<lambda>a. Inr [(a = 1, (i, j))]))
       [0..<i]) [0..<length A]"

definition cz_gates :: "(bool \<times> edge) list \<Rightarrow> (edge \<times> zvar) list" where
  "cz_gates decls = map (\<lambda>(b, (i, j)). ((i, j), CzVar i j)) (filter fst decls)"

definition identities :: "(bool \<times> edge) list \<Rightarrow> (edge \<times> zvar) list" where
  "identities decls = map (\<lambda>(b, (i, j)). ((i, j), IdVar i j)) (filter (\<lambda>d. \<not> fst d) decls)"

definition sat_bounds :: "(bool \<times> edge) list \<Rightarrow> int \<Rightarrow> constr list" where
  "sat_bounds decls depth =
     concat (map (\<lambda>(b, (i, j)).
        if b then [GeC (CzVar i j) 0, LtC (CzVar i j) depth] else [GeC (IdVar i j) 0]) decls)"

text \<open>Second loop: no two gates at the same time on the same qubit.\<close>

definition sat_conflicts ::
  "matrix \<Rightarrow> (edge \<times> zvar) list \<Rightarrow> (edge \<times> zvar) list \<Rightarrow> error + constr list" where
  "sat_conflicts A cz ident =
     concatE (\<lambda>i. concatE (\<lambda>j.
        bindE (cell A i j) (\<lambda>a.
          if a = 1 then
            bindE (concatE (\<lambda>k.
               bindE (cell A i k) (\<lambda>b.
                 if b = 1 then neq2 (lookup cz (i, j)) (lookup cz (i, k))
                 else neq2 (lookup cz (i, j)) (lookup ident (i, k))))
              [0..<j]) (\<lambda>c1.
            bindE (concatE (\<lambda>k.
               if k = j then Inr []
               else bindE (cell A j k) (\<lambda>b.
                 if b = 1 then
                   (if j > k then neq2 (lookup cz (i, j)) (lookup cz (j, k))
                    else neq2 (lookup cz (i, j)) (lookup cz (k, j)))
                 else
                   (if j > k then neq2 (lookup cz (i, j)) (lookup ident (j, k))
                    else neq2 (lookup cz (i, j)) (lookup ident (k, j)))))
              [0..<i]) (\<lambda>c2. Inr (c1 @ c2)))
          else Inr []))
       [0..<i]) [0..<length A]"

text \<open>Symmetry breaking: a gate comes strictly before the identities on its qubits.\<close>

definition sat_symmetry ::
  "matrix \<Rightarrow> (edge \<times> zvar) list \<Rightarrow> (edge \<times> zvar) list \<Rightarrow> error + constr list" where
  "sat_symmetry A cz ident =
     concatE (\<lambda>i. concatE (\<lambda>j.
        bindE (cell A i j) (\<lambda>a.
          if a = 1 then
            bindE (concatE (\<lambda>k.
               bindE (cell A i k) (\<lambda>b.
                 if b \<noteq> 1 then lt2 (lookup cz (i, j)) (lookup ident (i, k))
                 else Inr []))
              [0..<j]) (\<lambda>c1.
            bindE (concatE (\<lambda>k.
               if k = j then Inr []
               else bindE (cell A j k) (\<lambda>b.
                 if b \<noteq> 1 then
                   (if j > k then lt2 (lookup cz (i, j)) (lookup ident (j, k))
                    else lt2 (lookup cz (i, j)) (lookup ident (k, j)))
                 else Inr []))
              [0..<i]) (\<lambda>c2. Inr (c1 @ c2)))
          else Inr []))
       [0..<i]) [0..<length A]"

definition sat_constraints :: "matrix \<Rightarrow> int \<Rightarrow> bool \<Rightarrow> error + ((edge \<times> zvar) list \<times> constr list)" where
  "sat_constraints A depth use_symmetry_breaking =
     bindE (sat_declare A) (\<lambda>decls.
     bindE (sat_conflicts A (cz_gates decls) (identities decls)) (\<lambda>c2.
     bindE (if use_symmetry_breaking
            then sat_symmetry A (cz_gates decls) (identities decls) else Inr []) (\<lambda>c3.
       Inr (cz_gates decls, sat_bounds decls depth @ c2 @ c3))))"

definition sat_synthesis :: "solver \<Rightarrow> matrix \<Rightarrow> int \<Rightarrow> bool \<Rightarrow> error + mapping" where
  "sat_synthesis s A depth use_symmetry_breaking =
     bindE (sat_constraints A depth use_symmetry_breaking) (\<lambda>(cz, cs).
       case s cs of
         Some m \<Rightarrow> Inr (read_model m cz)
       | None \<Rightarrow> Inr [])"

section \<open>Circuits and the helpers of \<open>utils\<close>\<close>

text \<open>
  Of a circuit the code reads the name and the instruction list, of an instruction only
  the qubits it acts on. The circuit library's \<open>h\<close> and \<open>cz\<close> append one instruction
  per call; \<open>h\<close> over a range appends one per qubit, in order. The library refuses
  (\<open>CircuitError\<close>) an empty qubit argument, a qubit index outside the circuit, and a
  two-qubit gate on twice the same qubit.
\<close>

type_synonym instruction = "string \<times> nat list"

record circuit =
  num_qubits :: nat
  name :: string
  data :: "instruction list"

definition count_single_qubit_gates :: "circuit \<Rightarrow> nat" where
  "count_single_qubit_gates c = length (filter (\<lambda>(g, qubits). length qubits = 1) (data c))"

definition count_two_qubit_gates :: "circuit \<Rightarrow> nat" where
  "count_two_qubit_gates c = length (filter (\<lambda>(g, qubits). length qubits = 2) (data c))"

definition h_range :: "circuit \<Rightarrow> nat \<Rightarrow> error + circuit" where
  "h_range c n =
     (if n = 0 \<or> n > num_qubits c then Inl CircuitError
      else Inr (c\<lparr>data := data c @ map (\<lambda>q. (''h'', [q])) [0..<n]\<rparr>))"

definition cz :: "circuit \<Rightarrow> nat \<Rightarrow> nat \<Rightarrow> error + circuit" where
  "cz c a b =
     (if a < num_qubits c \<and> b < num_qubits c \<and> a \<noteq> b
      then Inr (c\<lparr>data := data c @ [(''cz'', [a, b])]\<rparr>)
      else Inl CircuitError)"

text \<open>
  \<open>re.findall(r'\d+', s)\<close>: the maximal runs of decimal digits, left to right. The first
  argument is the run being read. A name is a string of characters with codes below 256
  (the type \<open>string\<close>); among these, \<open>\d\<close> matches the ten characters \<open>0\<close> to
  \<open>9\<close> and no other. Names with characters of higher codes are not covered.
\<close>

definition is_digit :: "char \<Rightarrow> bool" where
  "is_digit c = (c \<in> set ''0123456789'')"

fun findall_digits :: "string \<Rightarrow> string \<Rightarrow> string list" where
  "findall_digits run [] = (if run = [] then [] else [run])"
| "findall_digits run (c # cs) =
     (if is_digit c then findall_digits (run @ [c]) cs
      else (if run = [] then [] else [run]) @ findall_digits [] cs)"

definition digit_value :: "char \<Rightarrow> nat" where
  "digit_value c = of_char c - 48"

text \<open>
  \<open>int(s)\<close> on a run of decimal digits: the number the digits denote in base ten,
  leading zeros allowed. The interpreter refuses (\<open>ValueError\<close>) the empty string,
  and a string of more digits than its limit for such conversions, which is 4300 unless
  the interpreter was configured otherwise (\<open>sys.int_info.default_max_str_digits\<close>).
\<close>

definition int_max_str_digits :: nat where
  "int_max_str_digits = 4300"

definition py_int :: "string \<Rightarrow> error + int" where
  "py_int ds =
     (if ds = [] \<or> int_max_str_digits < length ds then Inl ValueError
      else Inr (int (foldl (\<lambda>a c. 10 * a + digit_value c) 0 ds)))"

text \<open>
  \<open>int(len(numbers) ** 0.5)\<close>: the integer part of the square root (the float
  computation is exact for every list length that can occur).
\<close>

definition isqrt :: "nat \<Rightarrow> nat" where
  "isqrt n = Max (set (filter (\<lambda>k. k * k \<le> n) [0..<Suc n]))"

text \<open>
  \<open>extract_adjacency_matrix\<close>. \<open>list(map(int, matches))\<close> converts the runs in
  order and stops at the first one \<open>int\<close> refuses; \<open>numbers[i * n:(i + 1) * n]\<close> is
  a slice, which never fails.
\<close>

definition extract_adjacency_matrix :: "string \<Rightarrow> error + matrix" where
  "extract_adjacency_matrix circuit_name =
     (let matches = findall_digits [] circuit_name in
      bindE (concatE (\<lambda>m. bindE (py_int m) (\<lambda>number. Inr [number])) matches) (\<lambda>numbers.
        let n = isqrt (length numbers)
        in Inr (map (\<lambda>i. drop (i * n) (take ((i + 1) * n) numbers)) [0..<n])))"

text \<open>\<open>str\<close> of an integer and of a list, as the \<open>%s\<close> of the circuit name renders them.\<close>

fun str_nat :: "nat \<Rightarrow> string" where
  "str_nat n = (if n < 10 then [char_of (48 + n)] else str_nat (n div 10) @ [char_of (48 + n mod 10)])"

definition str_int :: "int \<Rightarrow> string" where
  "str_int i = (if i < 0 then ''-'' @ str_nat (nat (- i)) else str_nat (nat i))"

fun join :: "string \<Rightarrow> string list \<Rightarrow> string" where
  "join sep [] = []"
| "join sep [x] = x"
| "join sep (x # y # ys) = x @ sep @ join sep (y # ys)"

definition str_list :: "('a \<Rightarrow> string) \<Rightarrow> 'a list \<Rightarrow> string" where
  "str_list f xs = ''['' @ join '', '' (map f xs) @ '']''"

definition str_matrix :: "matrix \<Rightarrow> string" where
  "str_matrix A = str_list (str_list str_int) A"

section \<open>Materialising the circuit\<close>

text \<open>
  \<open>_map_synthesis_depth_optimal_mapping_to_qcircuit\<close>, the same in both modules. Its
  first argument is a dictionary, or the empty list that \<open>_linear_search\<close> starts from
  (\<open>None\<close> here), on which \<open>.items()\<close> fails.
\<close>

fun cz_edges :: "circuit \<Rightarrow> edge list \<Rightarrow> error + circuit" where
  "cz_edges c [] = Inr c"
| "cz_edges c (e # es) = bindE (cz c (fst e) (snd e)) (\<lambda>c'. cz_edges c' es)"

fun cz_layers :: "circuit \<Rightarrow> mapping \<Rightarrow> error + circuit" where
  "cz_layers c [] = Inr c"
| "cz_layers c ((l, edges) # rest) = bindE (cz_edges c edges) (\<lambda>c'. cz_layers c' rest)"

definition map_synthesis_depth_optimal_mapping_to_qcircuit ::
  "mapping option \<Rightarrow> matrix \<Rightarrow> error + circuit" where
  "map_synthesis_depth_optimal_mapping_to_qcircuit depth_optimal_mapping A =
     (let num_qubits = length A;
          depth_optimal_circuit =
            \<lparr>num_qubits = num_qubits,
             name = ''Depth optimal circuit of Graphstate g: '' @ str_matrix A,
             data = []\<rparr>
      in bindE (h_range depth_optimal_circuit num_qubits) (\<lambda>c.
           case depth_optimal_mapping of
             None \<Rightarrow> Inl AttributeError
           | Some mapping \<Rightarrow> cz_layers c mapping))"

section \<open>Depth search\<close>

text \<open>\<open>_max_outgoing_connections\<close>: per row, the entries equal to 1 up to the diagonal.\<close>

definition max_outgoing_connections :: "matrix \<Rightarrow> error + int" where
  "max_outgoing_connections A =
     bindE (concatE (\<lambda>i.
              bindE (concatE (\<lambda>j. bindE (cell A i j) (\<lambda>a. Inr (if a = 1 then [j] else [])))
                       [0..<i + 1]) (\<lambda>hits. Inr [int (length hits)]))
            [0..<length A]) (\<lambda>temp_connections. Inr (foldl max (- 1) temp_connections))"

text \<open>
  The \<open>for depth in range(minimum_depth, maximum_depth + 1)\<close> loop of \<open>_linear_search\<close>.
  \<open>ls_probed\<close> is a history variable the code does not have: the depths handed to
  \<open>_synthesis\<close>, in order. Nothing reads it.
\<close>

record lin_state =
  ls_depth :: int
  ls_solver_calls :: nat
  ls_mapping :: "mapping option"
  ls_probed :: "int list"

fun linear_loop :: "(int \<Rightarrow> error + mapping) \<Rightarrow> int list \<Rightarrow> lin_state \<Rightarrow> error + lin_state" where
  "linear_loop synthesis [] st = Inr st"
| "linear_loop synthesis (d # ds) st =
     bindE (synthesis d) (\<lambda>mapping.
       let st' = st\<lparr>ls_depth := d, ls_solver_calls := ls_solver_calls st + 1,
                    ls_probed := ls_probed st @ [d]\<rparr>
       in if mapping \<noteq> [] then Inr (st'\<lparr>ls_mapping := Some mapping\<rparr>)
          else linear_loop synthesis ds st')"

definition linear_run :: "(int \<Rightarrow> error + mapping) \<Rightarrow> int \<Rightarrow> int \<Rightarrow> error + lin_state" where
  "linear_run synthesis minimum_depth maximum_depth =
     linear_loop synthesis [minimum_depth..maximum_depth]
       \<lparr>ls_depth = 0, ls_solver_calls = 0, ls_mapping = None, ls_probed = []\<rparr>"

definition linear_result :: "matrix \<Rightarrow> lin_state \<Rightarrow> error + (circuit \<times> int \<times> nat)" where
  "linear_result A st =
     bindE (map_synthesis_depth_optimal_mapping_to_qcircuit (ls_mapping st) A) (\<lambda>c.
       Inr (c, ls_depth st, ls_solver_calls st))"

definition ec_linear_run :: "solver \<Rightarrow> matrix \<Rightarrow> bool \<Rightarrow> error + lin_state" where
  "ec_linear_run s A use_symmetry_breaking =
     bindE (max_outgoing_connections A) (\<lambda>minimum_depth.
       linear_run (\<lambda>d. ec_synthesis s A d use_symmetry_breaking) minimum_depth (int (length A)))"

definition ec_linear_search :: "solver \<Rightarrow> matrix \<Rightarrow> bool \<Rightarrow> error + (circuit \<times> int \<times> nat)" where
  "ec_linear_search s A use_symmetry_breaking =
     bindE (ec_linear_run s A use_symmetry_breaking) (linear_result A)"

definition sat_linear_run :: "solver \<Rightarrow> matrix \<Rightarrow> bool \<Rightarrow> error + lin_state" where
  "sat_linear_run s A use_symmetry_breaking =
     linear_run (\<lambda>d. sat_synthesis s A d use_symmetry_breaking) 0 (int (length A))"

definition sat_linear_search :: "solver \<Rightarrow> matrix \<Rightarrow> bool \<Rightarrow> error + (circuit \<times> int \<times> nat)" where
  "sat_linear_search s A use_symmetry_breaking =
     bindE (sat_linear_run s A use_symmetry_breaking) (linear_result A)"

text \<open>
  The \<open>while not found_optimal_depth\<close> loop of \<open>_binary_search\<close>, the same in both
  modules. Nothing bounds its iterations, so not returning is the value \<open>None\<close>.
\<close>

record bin_state =
  left_bound_depth :: int
  right_bound_depth :: int
  bs_solver_calls :: nat
  mappings_at_depth :: "int \<rightharpoonup> mapping"

definition probe ::
  "(int \<Rightarrow> error + mapping) \<Rightarrow> int \<Rightarrow> bin_state \<Rightarrow> error + bin_state" where
  "probe synthesis d st =
     bindE (synthesis d) (\<lambda>mapping.
       Inr (st\<lparr>mappings_at_depth := (mappings_at_depth st)(d \<mapsto> mapping),
               bs_solver_calls := bs_solver_calls st + 1\<rparr>))"

definition cached :: "bin_state \<Rightarrow> int \<Rightarrow> error + mapping" where
  "cached st d = (case mappings_at_depth st d of None \<Rightarrow> Inl KeyError | Some m \<Rightarrow> Inr m)"

text \<open>One iteration: either the next bounds and cache, or the values returned.\<close>

definition binary_step ::
  "(int \<Rightarrow> error + mapping) \<Rightarrow> bin_state \<Rightarrow> error + (bin_state + (mapping \<times> int \<times> nat))" where
  "binary_step synthesis st =
     (let current_depth = (left_bound_depth st + right_bound_depth st) div 2 in
      bindE (if current_depth \<notin> dom (mappings_at_depth st)
             then probe synthesis current_depth st else Inr st) (\<lambda>st1.
      bindE (if current_depth \<noteq> left_bound_depth st1
                \<and> current_depth - 1 \<notin> dom (mappings_at_depth st1)
             then probe synthesis (current_depth - 1) st1 else Inr st1) (\<lambda>st2.
      bindE (cached st2 current_depth) (\<lambda>depth_optimal_mapping.
        if depth_optimal_mapping = []
        then Inr (Inl (st2\<lparr>left_bound_depth := current_depth + 1\<rparr>))
        else if current_depth \<noteq> left_bound_depth st2
        then bindE (cached st2 (current_depth - 1)) (\<lambda>previous.
               if previous \<noteq> []
               then Inr (Inl (st2\<lparr>right_bound_depth := current_depth - 1\<rparr>))
               else Inr (Inr (depth_optimal_mapping, current_depth, bs_solver_calls st2)))
        else Inr (Inr (depth_optimal_mapping, current_depth, bs_solver_calls st2))))))"

partial_function (option) binary_loop ::
  "(int \<Rightarrow> error + mapping) \<Rightarrow> bin_state \<Rightarrow> (error + (mapping \<times> int \<times> nat)) option" where
  "binary_loop synthesis st =
     (case binary_step synthesis st of
        Inl e \<Rightarrow> Some (Inl e)
      | Inr (Inl st') \<Rightarrow> binary_loop synthesis st'
      | Inr (Inr found) \<Rightarrow> Some (Inr found))"

definition binary_run ::
  "(int \<Rightarrow> error + mapping) \<Rightarrow> int \<Rightarrow> int \<Rightarrow> (error + (mapping \<times> int \<times> nat)) option" where
  "binary_run synthesis left right =
     binary_loop synthesis
       \<lparr>left_bound_depth = left, right_bound_depth = right, bs_solver_calls = 0,
        mappings_at_depth = Map.empty\<rparr>"

definition binary_result ::
  "matrix \<Rightarrow> (error + (mapping \<times> int \<times> nat)) option \<Rightarrow> (error + (circuit \<times> int \<times> nat)) option" where
  "binary_result A r =
     (case r of
        None \<Rightarrow> None
      | Some (Inl e) \<Rightarrow> Some (Inl e)
      | Some (Inr (depth_optimal_mapping, current_depth, solver_calls)) \<Rightarrow>
          Some (bindE (map_synthesis_depth_optimal_mapping_to_qcircuit
                         (Some depth_optimal_mapping) A) (\<lambda>c.
                  Inr (c, current_depth, solver_calls))))"

definition ec_binary_search ::
  "solver \<Rightarrow> matrix \<Rightarrow> bool \<Rightarrow> (error + (circuit \<times> int \<times> nat)) option" where
  "ec_binary_search s A use_symmetry_breaking =
     (case max_outgoing_connections A of
        Inl e \<Rightarrow> Some (Inl e)
      | Inr left \<Rightarrow>
          binary_result A
            (binary_run (\<lambda>d. ec_synthesis s A d use_symmetry_breaking) left (int (length A))))"

definition sat_binary_search ::
  "solver \<Rightarrow> matrix \<Rightarrow> bool \<Rightarrow> (error + (circuit \<times> int \<times> nat)) option" where
  "sat_binary_search s A use_symmetry_breaking =
     binary_result A
       (binary_run (\<lambda>d. sat_synthesis s A d use_symmetry_breaking) 0 (int (length A)))"

section \<open>The entry points\<close>

text \<open>
  \<open>SynthesisResults\<close>. The rendering \<open>circuit.draw()\<close> and the two readings of the
  clock are the environment's, so they are parameters of the entry points. An exception
  of \<open>extract_adjacency_matrix\<close> goes to the caller.
\<close>

record synthesis_results =
  r_circuit :: string
  r_depth :: int
  r_gates :: nat
  r_runtime :: real
  r_single_qubit_gates :: nat
  r_solver_calls :: nat
  r_tableau :: string
  r_two_qubit_gates :: nat
  r_is_sat :: bool

definition all_zero :: "matrix \<Rightarrow> bool" where
  "all_zero A = list_all (\<lambda>row. list_all (\<lambda>cell. cell = 0) row) A"

definition trivial_result :: "(circuit \<Rightarrow> string) \<Rightarrow> circuit \<Rightarrow> synthesis_results" where
  "trivial_result draw c =
     \<lparr>r_circuit = draw c, r_depth = 0,
      r_gates = count_single_qubit_gates c + count_two_qubit_gates c,
      r_runtime = 0, r_single_qubit_gates = count_single_qubit_gates c,
      r_solver_calls = 0, r_tableau = ''Not available yet'',
      r_two_qubit_gates = count_two_qubit_gates c, r_is_sat = True\<rparr>"

definition search_result ::
  "(circuit \<Rightarrow> string) \<Rightarrow> real \<Rightarrow> real \<Rightarrow> circuit \<times> int \<times> nat \<Rightarrow> circuit \<times> synthesis_results" where
  "search_result draw start_time end_time found =
     (case found of (depth_optimal_circuit, depth, solver_calls) \<Rightarrow>
        (depth_optimal_circuit,
         \<lparr>r_circuit = draw depth_optimal_circuit, r_depth = depth,
          r_gates = count_single_qubit_gates depth_optimal_circuit
                    + count_two_qubit_gates depth_optimal_circuit,
          r_runtime = end_time - start_time,
          r_single_qubit_gates = count_single_qubit_gates depth_optimal_circuit,
          r_solver_calls = solver_calls, r_tableau = ''Not available yet'',
          r_two_qubit_gates = count_two_qubit_gates depth_optimal_circuit,
          r_is_sat = True\<rparr>))"

definition finish ::
  "(circuit \<Rightarrow> string) \<Rightarrow> real \<Rightarrow> real \<Rightarrow> (error + (circuit \<times> int \<times> nat)) option
   \<Rightarrow> (error + (circuit \<times> synthesis_results)) option" where
  "finish draw start_time end_time r =
     (case r of
        None \<Rightarrow> None
      | Some (Inl e) \<Rightarrow> Some (Inl e)
      | Some (Inr found) \<Rightarrow> Some (Inr (search_result draw start_time end_time found)))"

definition synthesize_graph_state_edge_colouring ::
  "solver \<Rightarrow> (circuit \<Rightarrow> string) \<Rightarrow> real \<Rightarrow> real \<Rightarrow> circuit \<Rightarrow> bool \<Rightarrow> bool
   \<Rightarrow> (error + (circuit \<times> synthesis_results)) option" where
  "synthesize_graph_state_edge_colouring s draw start_time end_time c
       use_symmetry_breaking use_linear_search =
     (case extract_adjacency_matrix (name c) of
        Inl e \<Rightarrow> Some (Inl e)
      | Inr adjacency_matrix \<Rightarrow>
          if all_zero adjacency_matrix then Some (Inr (c, trivial_result draw c))
          else finish draw start_time end_time
                 (if use_linear_search
                  then Some (ec_linear_search s adjacency_matrix use_symmetry_breaking)
                  else ec_binary_search s adjacency_matrix use_symmetry_breaking))"

definition synthesize_graph_state_sat_solver ::
  "solver \<Rightarrow> (circuit \<Rightarrow> string) \<Rightarrow> real \<Rightarrow> real \<Rightarrow> circuit \<Rightarrow> bool \<Rightarrow> bool
   \<Rightarrow> (error + (circuit \<times> synthesis_results)) option" where
  "synthesize_graph_state_sat_solver s draw start_time end_time c
       use_symmetry_breaking use_linear_search =
     (case extract_adjacency_matrix (name c) of
        Inl e \<Rightarrow> Some (Inl e)
      | Inr adjacency_matrix \<Rightarrow>
          if all_zero adjacency_matrix then Some (Inr (c, trivial_result draw c))
          else finish draw start_time end_time
                 (if use_linear_search
                  then Some (sat_linear_search s adjacency_matrix use_symmetry_breaking)
                  else sat_binary_search s adjacency_matrix use_symmetry_breaking))"

section \<open>Graphs and edge colourings\<close>

text \<open>
  The graphs the claims are about: square 0/1 matrices, symmetric, with a zero diagonal.
  An edge is a lower-triangle entry equal to 1, written with the larger endpoint first,
  as the encoders key their variables. A proper colouring with \<open>d\<close> colours gives
  every edge a colour in \<open>[0, d)\<close> and different colours to edges that share a node.
\<close>

definition edges :: "matrix \<Rightarrow> edge set" where
  "edges A = {(i, j). j < i \<and> i < length A \<and> A ! i ! j = 1}"

definition simple_graph :: "matrix \<Rightarrow> bool" where
  "simple_graph A =
     ((\<forall>i<length A. length (A ! i) = length A) \<and>
      (\<forall>i<length A. \<forall>j<length A. (A ! i ! j = 0 \<or> A ! i ! j = 1) \<and> A ! i ! j = A ! j ! i) \<and>
      (\<forall>i<length A. A ! i ! i = 0))"

definition adjacent :: "edge \<Rightarrow> edge \<Rightarrow> bool" where
  "adjacent e f =
     (e \<noteq> f \<and> (fst e = fst f \<or> fst e = snd f \<or> snd e = fst f \<or> snd e = snd f))"

definition proper :: "matrix \<Rightarrow> int \<Rightarrow> (edge \<Rightarrow> int) \<Rightarrow> bool" where
  "proper A d c =
     ((\<forall>e\<in>edges A. 0 \<le> c e \<and> c e < d) \<and>
      (\<forall>e\<in>edges A. \<forall>f\<in>edges A. adjacent e f \<longrightarrow> c e \<noteq> c f))"

definition colourable :: "matrix \<Rightarrow> int \<Rightarrow> bool" where
  "colourable A d = (\<exists>c. proper A d c)"

definition degree :: "matrix \<Rightarrow> nat \<Rightarrow> nat" where
  "degree A v = length (filter (\<lambda>x. x = 1) (A ! v))"

definition max_degree :: "matrix \<Rightarrow> nat" where
  "max_degree A = foldr max (map (degree A) [0..<length A]) 0"

definition lower_degree :: "matrix \<Rightarrow> nat \<Rightarrow> nat" where
  "lower_degree A i = length (filter (\<lambda>j. A ! i ! j = 1) [0..<Suc i])"

section \<open>The contract of the oracle on a graph\<close>

text \<open>
  A solver is trusted on the instances an encoder builds for the graph at hand, for
  every depth bound; nothing is asked of it elsewhere.
\<close>

definition ec_oracle :: "solver \<Rightarrow> matrix \<Rightarrow> bool \<Rightarrow> bool" where
  "ec_oracle s A sb =
     (\<forall>d. case ec_constraints A d sb of Inl e \<Rightarrow> True | Inr (vars, cs) \<Rightarrow> solver_ok s cs)"

definition sat_oracle :: "solver \<Rightarrow> matrix \<Rightarrow> bool \<Rightarrow> bool" where
  "sat_oracle s A sb =
     (\<forall>d. case sat_constraints A d sb of Inl e \<Rightarrow> True | Inr (vars, cs) \<Rightarrow> solver_ok s cs)"

section \<open>Schedules and circuits\<close>

text \<open>
  The edges of a mapping in the order the dictionary yields them, what it means for a
  mapping to follow a colouring, and the circuit the materialiser builds from a mapping
  whose edges are gate arguments the circuit library accepts.
\<close>

definition layer_edges :: "mapping \<Rightarrow> edge list" where
  "layer_edges M = concat (map snd M)"

definition coloured :: "(edge \<Rightarrow> int) \<Rightarrow> mapping \<Rightarrow> bool" where
  "coloured col M = (\<forall>p\<in>set M. \<forall>f\<in>set (snd p). col f = fst p)"

definition schedule_of :: "matrix \<Rightarrow> int \<Rightarrow> mapping \<Rightarrow> bool" where
  "schedule_of A d M =
     (\<exists>c. proper A d c \<and> coloured c M \<and> distinct (map fst M) \<and> distinct (layer_edges M)
          \<and> set (layer_edges M) = edges A)"

definition valid_edges :: "nat \<Rightarrow> edge list \<Rightarrow> bool" where
  "valid_edges n es = list_all (\<lambda>e. fst e < n \<and> snd e < n \<and> fst e \<noteq> snd e) es"

definition cz_instructions :: "edge list \<Rightarrow> instruction list" where
  "cz_instructions es = map (\<lambda>e. (''cz'', [fst e, snd e])) es"

definition h_instructions :: "nat \<Rightarrow> instruction list" where
  "h_instructions n = map (\<lambda>q. (''h'', [q])) [0..<n]"

definition circuit_of :: "matrix \<Rightarrow> mapping \<Rightarrow> circuit" where
  "circuit_of A M =
     \<lparr>num_qubits = length A,
      name = ''Depth optimal circuit of Graphstate g: '' @ str_matrix A,
      data = h_instructions (length A) @ cz_instructions (layer_edges M)\<rparr>"

section \<open>The instances of a simple graph, written out\<close>

text \<open>
  On a simple graph no lookup of the encoders fails, and the constraint lists are the
  following ones. The lemmas below prove that the encoders return them.
\<close>

definition ec_vars :: "matrix \<Rightarrow> (edge \<times> zvar) list" where
  "ec_vars A =
     concat (map (\<lambda>i. concat (map (\<lambda>j.
        if A ! i ! j = 1 then [((i, j), EdgeVar i j)] else []) [0..<i])) [0..<length A])"

definition ec_conflicts_pure :: "matrix \<Rightarrow> constr list" where
  "ec_conflicts_pure A =
     concat (map (\<lambda>i. concat (map (\<lambda>j.
        if A ! i ! j = 1 then
          concat (map (\<lambda>k.
            if A ! i ! k = 1 then [NeqV (EdgeVar i j) (EdgeVar i k)] else []) [0..<j]) @
          concat (map (\<lambda>k.
            if A ! k ! j = 1
            then (if j > k then [NeqV (EdgeVar i j) (EdgeVar j k)]
                  else [NeqV (EdgeVar i j) (EdgeVar k j)])
            else []) [0..<i])
        else []) [0..<i])) [0..<length A])"

definition star_edge :: "nat \<Rightarrow> nat \<Rightarrow> edge" where
  "star_edge r i = (if r > i then (r, i) else (i, r))"

fun ec_fix_pure :: "nat \<Rightarrow> (nat \<times> int) list \<Rightarrow> int \<Rightarrow> constr list" where
  "ec_fix_pure r [] color = []"
| "ec_fix_pure r ((i, v) # rest) color =
     (if v \<noteq> 1 then ec_fix_pure r rest color
      else EqC (EdgeVar (fst (star_edge r i)) (snd (star_edge r i))) color
             # ec_fix_pure r rest (color + 1))"

definition ones :: "(nat \<times> int) list \<Rightarrow> nat list" where
  "ones ivs = map fst (filter (\<lambda>p. snd p = 1) ivs)"

definition ec_star :: "matrix \<Rightarrow> constr list" where
  "ec_star A = ec_fix_pure (nat (snd (max_row A))) (enumerate 0 (A ! nat (snd (max_row A)))) 0"

definition ec_pure :: "matrix \<Rightarrow> int \<Rightarrow> bool \<Rightarrow> constr list" where
  "ec_pure A d sb =
     ec_bounds (ec_vars A) d @ ec_conflicts_pure A @ (if sb then ec_star A else [])"

definition sat_decls :: "matrix \<Rightarrow> (bool \<times> edge) list" where
  "sat_decls A =
     concat (map (\<lambda>i. concat (map (\<lambda>j. [(A ! i ! j = 1, (i, j))]) [0..<i])) [0..<length A])"

definition sat_conflicts_pure :: "matrix \<Rightarrow> constr list" where
  "sat_conflicts_pure A =
     concat (map (\<lambda>i. concat (map (\<lambda>j.
        if A ! i ! j = 1 then
          concat (map (\<lambda>k.
            if A ! i ! k = 1 then [NeqV (CzVar i j) (CzVar i k)]
            else [NeqV (CzVar i j) (IdVar i k)]) [0..<j]) @
          concat (map (\<lambda>k.
            if k = j then []
            else if A ! j ! k = 1
            then (if j > k then [NeqV (CzVar i j) (CzVar j k)]
                  else [NeqV (CzVar i j) (CzVar k j)])
            else (if j > k then [NeqV (CzVar i j) (IdVar j k)]
                  else [NeqV (CzVar i j) (IdVar k j)])) [0..<i])
        else []) [0..<i])) [0..<length A])"

definition sat_symmetry_pure :: "matrix \<Rightarrow> constr list" where
  "sat_symmetry_pure A =
     concat (map (\<lambda>i. concat (map (\<lambda>j.
        if A ! i ! j = 1 then
          concat (map (\<lambda>k.
            if A ! i ! k \<noteq> 1 then [LtV (CzVar i j) (IdVar i k)] else []) [0..<j]) @
          concat (map (\<lambda>k.
            if k = j then []
            else if A ! j ! k \<noteq> 1
            then (if j > k then [LtV (CzVar i j) (IdVar j k)]
                  else [LtV (CzVar i j) (IdVar k j)])
            else []) [0..<i])
        else []) [0..<i])) [0..<length A])"

definition sat_pure :: "matrix \<Rightarrow> int \<Rightarrow> bool \<Rightarrow> constr list" where
  "sat_pure A d sb =
     sat_bounds (sat_decls A) d @ sat_conflicts_pure A @ (if sb then sat_symmetry_pure A else [])"

definition ec_out :: "solver \<Rightarrow> matrix \<Rightarrow> bool \<Rightarrow> int \<Rightarrow> mapping" where
  "ec_out s A sb d =
     (case s (ec_pure A d sb) of Some m \<Rightarrow> read_model m (ec_vars A) | None \<Rightarrow> [])"

definition sat_out :: "solver \<Rightarrow> matrix \<Rightarrow> bool \<Rightarrow> int \<Rightarrow> mapping" where
  "sat_out s A sb d =
     (case s (sat_pure A d sb) of Some m \<Rightarrow> read_model m (cz_gates (sat_decls A)) | None \<Rightarrow> [])"

section \<open>Models and colourings\<close>

text \<open>
  The colouring a model induces, the model a colouring induces (identity variables sit
  above every colour), the exchange of two colours, the colouring of the complete graph
  by \<open>(i + j) mod n\<close>, and the invariant of the binary search's cache.
\<close>

definition ec_colour :: "model \<Rightarrow> edge \<Rightarrow> int" where
  "ec_colour m e = m (EdgeVar (fst e) (snd e))"

definition cz_colour :: "model \<Rightarrow> edge \<Rightarrow> int" where
  "cz_colour m e = m (CzVar (fst e) (snd e))"

definition ec_model :: "(edge \<Rightarrow> int) \<Rightarrow> model" where
  "ec_model c x = (case x of EdgeVar i j \<Rightarrow> c (i, j) | _ \<Rightarrow> 0)"

definition sat_model :: "(edge \<Rightarrow> int) \<Rightarrow> int \<Rightarrow> model" where
  "sat_model c d x = (case x of CzVar i j \<Rightarrow> c (i, j) | IdVar i j \<Rightarrow> max d 0 | _ \<Rightarrow> 0)"

definition swapc :: "int \<Rightarrow> int \<Rightarrow> int \<Rightarrow> int" where
  "swapc a b x = (if x = a then b else if x = b then a else x)"

definition round_robin :: "nat \<Rightarrow> edge \<Rightarrow> int" where
  "round_robin n e = int ((fst e + snd e) mod n)"

definition cache_ok :: "(int \<Rightarrow> mapping) \<Rightarrow> bin_state \<Rightarrow> bool" where
  "cache_ok f st = (\<forall>d M. mappings_at_depth st d = Some M \<longrightarrow> M = f d)"

section \<open>The vocabulary of the claims\<close>

text \<open>
  What the claims ask of a returned mapping: every edge of the graph lies in exactly one
  layer (and once in it), the layers together hold the edges of the graph and nothing
  else, and no two edges of one layer share a node.
\<close>

definition in_layer :: "mapping \<Rightarrow> int \<Rightarrow> edge \<Rightarrow> bool" where
  "in_layer M l e = (\<exists>es. (l, es) \<in> set M \<and> e \<in> set es)"

definition valid_schedule :: "matrix \<Rightarrow> mapping \<Rightarrow> bool" where
  "valid_schedule A M =
     ((\<forall>e\<in>edges A. \<exists>!l. in_layer M l e) \<and>
      distinct (map fst M) \<and> distinct (layer_edges M) \<and>
      set (layer_edges M) = edges A \<and>
      (\<forall>p\<in>set M. \<forall>e\<in>set (snd p). \<forall>f\<in>set (snd p). \<not> adjacent e f))"

text \<open>
  The two readings of "the instance at depth \<open>d\<close> is satisfiable": the constraints
  the encoder hands to the solver have a model, and the encoder returns a non-empty
  mapping.
\<close>

definition ec_satisfiable :: "matrix \<Rightarrow> int \<Rightarrow> bool \<Rightarrow> bool" where
  "ec_satisfiable A d sb =
     (case ec_constraints A d sb of Inl e \<Rightarrow> False | Inr (vars, cs) \<Rightarrow> satisfiable cs)"

definition sat_satisfiable :: "matrix \<Rightarrow> int \<Rightarrow> bool \<Rightarrow> bool" where
  "sat_satisfiable A d sb =
     (case sat_constraints A d sb of Inl e \<Rightarrow> False | Inr (vars, cs) \<Rightarrow> satisfiable cs)"

definition nonempty_result :: "error + mapping \<Rightarrow> bool" where
  "nonempty_result r = (case r of Inl e \<Rightarrow> False | Inr M \<Rightarrow> M \<noteq> [])"

text \<open>
  What a caller reads off a run: depth, single-qubit gates, two-qubit gates, all gates,
  solver calls.
\<close>

definition observed ::
  "(error + (circuit \<times> synthesis_results)) option \<Rightarrow> (int \<times> nat \<times> nat \<times> nat \<times> nat) option" where
  "observed r =
     (case r of
        Some (Inr (c, res)) \<Rightarrow>
          Some (r_depth res, r_single_qubit_gates res, r_two_qubit_gates res, r_gates res,
                r_solver_calls res)
      | _ \<Rightarrow> None)"

text \<open>A square matrix of zeros and ones.\<close>

definition square01 :: "matrix \<Rightarrow> bool" where
  "square01 A = (\<forall>row\<in>set A. length row = length A \<and> (\<forall>x\<in>set row. x = 0 \<or> x = 1))"

text \<open>
  The words of the claim about names. The maximal runs of digits of a string: skip what
  is not a digit, take digits as long as they last, go on behind them. The number a
  string of digits denotes in base ten, position by position. A square matrix of
  non-negative integers that \<open>int\<close> reads back (rendered with at most 4300 digits).
\<close>

definition decimal_value :: "string \<Rightarrow> nat" where
  "decimal_value ds =
     sum_list (map (\<lambda>i. digit_value (ds ! i) * 10 ^ (length ds - Suc i)) [0..<length ds])"

function maximal_digit_runs :: "string \<Rightarrow> string list" where
  "maximal_digit_runs s =
     (case dropWhile (\<lambda>c. \<not> is_digit c) s of
        [] \<Rightarrow> []
      | c # t \<Rightarrow> takeWhile is_digit (c # t) # maximal_digit_runs (dropWhile is_digit (c # t)))"
  by pat_completeness auto
termination
proof (relation "measure length")
  show "wf (measure length)" by simp
next
  fix s :: string and c t
  assume a: "dropWhile (\<lambda>c. \<not> is_digit c) s = c # t"
  then have d: "is_digit c" by (simp add: dropWhile_eq_Cons_conv)
  have "length (dropWhile is_digit (c # t)) \<le> length t"
    using d by (simp add: length_dropWhile_le)
  also have "length t < length (dropWhile (\<lambda>c. \<not> is_digit c) s)" by (simp add: a)
  also have "\<dots> \<le> length s" by (rule length_dropWhile_le)
  finally show "(dropWhile is_digit (c # t), s) \<in> measure length" by simp
qed

definition square_nat :: "matrix \<Rightarrow> bool" where
  "square_nat A =
     (\<forall>row\<in>set A. length row = length A
        \<and> (\<forall>x\<in>set row. 0 \<le> x \<and> length (str_int x) \<le> int_max_str_digits))"

section \<open>Concrete inputs\<close>

text \<open>
  A solver for concrete runs: the first of a list of candidate models that satisfies
  the instance. It is correct on an instance whenever one of its candidates satisfies
  every satisfiable instance it is given.
\<close>

definition try_models :: "model list \<Rightarrow> solver" where
  "try_models ms cs = find (\<lambda>m. satisfies m cs) ms"

definition zero_model :: model where
  "zero_model x = 0"

text \<open>The graph with two nodes and one edge, and a circuit named after it.\<close>

definition pair_graph :: matrix where
  "pair_graph = [[0, 1], [1, 0]]"

definition pair_circuit :: circuit where
  "pair_circuit =
     \<lparr>num_qubits = 2, name = ''graph: [[0, 1], [1, 0]]'',
      data = [(''h'', [0]), (''h'', [1]), (''cz'', [0, 1])]\<rparr>"

text \<open>A circuit whose name carries the all-zero matrix on two nodes.\<close>

definition empty_graph_circuit :: circuit where
  "empty_graph_circuit =
     \<lparr>num_qubits = 2, name = ''graph: [[0, 0], [0, 0]]'',
      data = [(''h'', [0]), (''h'', [1])]\<rparr>"

text \<open>
  The path on three nodes, a model that gives its first edge colour 1 and its second
  edge colour 0, and the mapping read back from that model.
\<close>

definition path_graph :: matrix where
  "path_graph = [[0, 1, 0], [1, 0, 1], [0, 1, 0]]"

definition swap_model :: model where
  "swap_model x = (case x of EdgeVar i j \<Rightarrow> 2 - int i | CzVar i j \<Rightarrow> 2 - int i | IdVar i j \<Rightarrow> 3)"

definition swapped_mapping :: mapping where
  "swapped_mapping = [(1, [(1, 0)]), (0, [(2, 1)])]"

text \<open>A circuit named after the path on three nodes.\<close>

definition path_circuit :: circuit where
  "path_circuit =
     \<lparr>num_qubits = 3, name = ''graph: [[0, 1, 0], [1, 0, 1], [0, 1, 0]]'',
      data = [(''h'', [0]), (''h'', [1]), (''h'', [2]), (''cz'', [0, 1]), (''cz'', [1, 2])]\<rparr>"

text \<open>The star with centre 0 and three leaves, and a model that colours it.\<close>

definition star_graph :: matrix where
  "star_graph = [[0, 1, 1, 1], [1, 0, 0, 0], [1, 0, 0, 0], [1, 0, 0, 0]]"

definition star_model :: model where
  "star_model x = (case x of EdgeVar i j \<Rightarrow> int i - 1 | CzVar i j \<Rightarrow> int i - 1 | IdVar i j \<Rightarrow> 4)"

section \<open>Lemmas: the encoders on a simple graph\<close>

lemma bindE_Inr [simp]: "bindE (Inr x) f = f x"
  by (simp add: bindE_def)

lemma bindE_Inl [simp]: "bindE (Inl e) f = Inl e"
  by (simp add: bindE_def)

lemma concatE_Inr:
  "(\<And>x. x \<in> set xs \<Longrightarrow> f x = Inr (g x)) \<Longrightarrow> concatE f xs = Inr (concat (map g xs))"
  by (induction xs) auto

lemma cell_simple:
  "simple_graph A \<Longrightarrow> i < length A \<Longrightarrow> j < length A \<Longrightarrow> cell A i j = Inr (A ! i ! j)"
  by (simp add: simple_graph_def cell_def)

lemma ec_declare_simple:
  assumes "simple_graph A"
  shows "ec_declare A = Inr (ec_vars A)"
  unfolding ec_declare_def ec_vars_def
  by (rule concatE_Inr, rule concatE_Inr) (simp add: cell_simple [OF assms])

lemma set_ec_vars: "set (ec_vars A) = (\<lambda>(i, j). ((i, j), EdgeVar i j)) ` edges A"
  by (auto simp: ec_vars_def edges_def image_iff split: if_splits)

lemma lookup_ec_vars:
  assumes "(i, j) \<in> edges A"
  shows "lookup (ec_vars A) (i, j) = Inr (EdgeVar i j)"
proof -
  have "(i, j) \<in> fst ` set (ec_vars A)"
    using assms by (force simp: set_ec_vars)
  then obtain x where x: "map_of (ec_vars A) (i, j) = Some x"
    by (metis map_of_eq_None_iff not_Some_eq)
  then have "((i, j), x) \<in> set (ec_vars A)"
    by (rule map_of_SomeD)
  then have "x = EdgeVar i j"
    by (auto simp: set_ec_vars)
  with x show ?thesis
    by (simp add: lookup_def)
qed

lemma satisfies_Nil [simp]: "satisfies m []"
  by (simp add: satisfies_def)

lemma satisfies_Cons [simp]: "satisfies m (c # cs) \<longleftrightarrow> holds m c \<and> satisfies m cs"
  by (simp add: satisfies_def)

lemma satisfies_append [simp]: "satisfies m (cs @ ds) \<longleftrightarrow> satisfies m cs \<and> satisfies m ds"
  by (simp add: satisfies_def)

lemma satisfies_concat_map [simp]:
  "satisfies m (concat (map g xs)) \<longleftrightarrow> (\<forall>x\<in>set xs. satisfies m (g x))"
  by (induction xs) auto

lemma satisfies_if [simp]:
  "satisfies m (if b then cs else ds) \<longleftrightarrow> (b \<longrightarrow> satisfies m cs) \<and> (\<not> b \<longrightarrow> satisfies m ds)"
  by simp

lemma neq2_Inr [simp]: "neq2 (Inr x) (Inr y) = Inr [NeqV x y]"
  by (simp add: neq2_def)

lemma lt2_Inr [simp]: "lt2 (Inr x) (Inr y) = Inr [LtV x y]"
  by (simp add: lt2_def)

lemma edges_lower: "simple_graph A \<Longrightarrow> i < length A \<Longrightarrow> j < i \<Longrightarrow> A ! i ! j = 1 \<Longrightarrow> (i, j) \<in> edges A"
  by (simp add: edges_def)

lemma edges_upper: "simple_graph A \<Longrightarrow> i < length A \<Longrightarrow> j < i \<Longrightarrow> A ! j ! i = 1 \<Longrightarrow> (i, j) \<in> edges A"
  by (simp add: edges_def simple_graph_def)

lemma no_loop: "simple_graph A \<Longrightarrow> i < length A \<Longrightarrow> A ! i ! i \<noteq> 1"
  by (simp add: simple_graph_def)

lemma ec_conflicts_simple:
  assumes sg: "simple_graph A"
  shows "ec_conflicts A (ec_vars A) = Inr (ec_conflicts_pure A)"
  unfolding ec_conflicts_def ec_conflicts_pure_def
proof (rule concatE_Inr, rule concatE_Inr)
  fix i j assume "i \<in> set [0..<length A]" "j \<in> set [0..<i]"
  then have i: "i < length A" and j: "j < i" by auto
  show "bindE (cell A i j) (\<lambda>a.
          if a = 1 then
            bindE (concatE (\<lambda>k.
               bindE (cell A i k) (\<lambda>b.
                 if b = 1 then
                   (if i > k then neq2 (lookup (ec_vars A) (i, j)) (lookup (ec_vars A) (i, k))
                    else neq2 (lookup (ec_vars A) (i, j)) (lookup (ec_vars A) (k, i)))
                 else Inr []))
              [0..<j]) (\<lambda>c1.
            bindE (concatE (\<lambda>k.
               bindE (cell A k j) (\<lambda>b.
                 if b = 1 then
                   (if j > k then neq2 (lookup (ec_vars A) (i, j)) (lookup (ec_vars A) (j, k))
                    else neq2 (lookup (ec_vars A) (i, j)) (lookup (ec_vars A) (k, j)))
                 else Inr []))
              [0..<i]) (\<lambda>c2. Inr (c1 @ c2)))
          else Inr []) =
        Inr (if A ! i ! j = 1 then
          concat (map (\<lambda>k.
            if A ! i ! k = 1 then [NeqV (EdgeVar i j) (EdgeVar i k)] else []) [0..<j]) @
          concat (map (\<lambda>k.
            if A ! k ! j = 1
            then (if j > k then [NeqV (EdgeVar i j) (EdgeVar j k)]
                  else [NeqV (EdgeVar i j) (EdgeVar k j)])
            else []) [0..<i])
        else [])"
  proof (cases "A ! i ! j = 1")
    case False
    with i j show ?thesis by (simp add: cell_simple [OF sg])
  next
    case True
    have e: "lookup (ec_vars A) (i, j) = Inr (EdgeVar i j)"
      using True i j by (intro lookup_ec_vars edges_lower [OF sg])
    have 1: "concatE (\<lambda>k.
               bindE (cell A i k) (\<lambda>b.
                 if b = 1 then
                   (if i > k then neq2 (lookup (ec_vars A) (i, j)) (lookup (ec_vars A) (i, k))
                    else neq2 (lookup (ec_vars A) (i, j)) (lookup (ec_vars A) (k, i)))
                 else Inr [])) [0..<j] =
             Inr (concat (map (\<lambda>k.
                if A ! i ! k = 1 then [NeqV (EdgeVar i j) (EdgeVar i k)] else []) [0..<j]))"
    proof (rule concatE_Inr)
      fix k assume "k \<in> set [0..<j]"
      then have k: "k < j" by simp
      then show "bindE (cell A i k) (\<lambda>b.
                 if b = 1 then
                   (if i > k then neq2 (lookup (ec_vars A) (i, j)) (lookup (ec_vars A) (i, k))
                    else neq2 (lookup (ec_vars A) (i, j)) (lookup (ec_vars A) (k, i)))
                 else Inr []) =
             Inr (if A ! i ! k = 1 then [NeqV (EdgeVar i j) (EdgeVar i k)] else [])"
        using i j e by (simp add: cell_simple [OF sg] lookup_ec_vars edges_lower [OF sg])
    qed
    have 2: "concatE (\<lambda>k.
               bindE (cell A k j) (\<lambda>b.
                 if b = 1 then
                   (if j > k then neq2 (lookup (ec_vars A) (i, j)) (lookup (ec_vars A) (j, k))
                    else neq2 (lookup (ec_vars A) (i, j)) (lookup (ec_vars A) (k, j)))
                 else Inr [])) [0..<i] =
             Inr (concat (map (\<lambda>k.
                if A ! k ! j = 1
                then (if j > k then [NeqV (EdgeVar i j) (EdgeVar j k)]
                      else [NeqV (EdgeVar i j) (EdgeVar k j)])
                else []) [0..<i]))"
    proof (rule concatE_Inr)
      fix k assume "k \<in> set [0..<i]"
      then have k: "k < i" by simp
      have c: "cell A k j = Inr (A ! k ! j)"
        using i j k by (simp add: cell_simple [OF sg])
      show "bindE (cell A k j) (\<lambda>b.
                 if b = 1 then
                   (if j > k then neq2 (lookup (ec_vars A) (i, j)) (lookup (ec_vars A) (j, k))
                    else neq2 (lookup (ec_vars A) (i, j)) (lookup (ec_vars A) (k, j)))
                 else Inr []) =
             Inr (if A ! k ! j = 1
                then (if j > k then [NeqV (EdgeVar i j) (EdgeVar j k)]
                      else [NeqV (EdgeVar i j) (EdgeVar k j)])
                else [])"
      proof (cases "A ! k ! j = 1")
        case False
        then show ?thesis by (simp add: c)
      next
        case kj: True
        have "k \<noteq> j" using kj no_loop [OF sg, of j] i j by auto
        then consider "k < j" | "j < k" by linarith
        then show ?thesis
        proof cases
          case 1
          then have "(j, k) \<in> edges A"
            using kj i j by (intro edges_upper [OF sg]) auto
          then show ?thesis using 1 kj e by (simp add: c lookup_ec_vars)
        next
          case 2
          then have "(k, j) \<in> edges A"
            using kj i k by (intro edges_lower [OF sg]) auto
          then show ?thesis using 2 kj e by (simp add: c lookup_ec_vars)
        qed
      qed
    qed
    show ?thesis
      using True i j by (simp add: cell_simple [OF sg] 1 2)
  qed
qed

lemma ec_conflicts_sem:
  assumes sg: "simple_graph A"
  shows "satisfies m (ec_conflicts_pure A) \<longleftrightarrow>
         (\<forall>e\<in>edges A. \<forall>f\<in>edges A. adjacent e f \<longrightarrow> ec_colour m e \<noteq> ec_colour m f)"
    (is "?L \<longleftrightarrow> ?R")
proof
  assume ?R
  then have R: "\<And>i j k l. (i, j) \<in> edges A \<Longrightarrow> (k, l) \<in> edges A \<Longrightarrow> adjacent (i, j) (k, l)
      \<Longrightarrow> m (EdgeVar i j) \<noteq> m (EdgeVar k l)"
    by (fastforce simp: ec_colour_def)
  have "m (EdgeVar i j) \<noteq> m (EdgeVar i k)"
    if "i < length A" "j < i" "k < j" "A ! i ! j = 1" "A ! i ! k = 1" for i j k
    using that by (intro R) (auto simp: edges_def adjacent_def)
  moreover have "m (EdgeVar i j) \<noteq> m (EdgeVar j k)"
    if "i < length A" "j < i" "k < j" "A ! i ! j = 1" "A ! k ! j = 1" for i j k
  proof -
    have "A ! j ! k = 1" using that sg by (simp add: simple_graph_def)
    then show ?thesis using that by (intro R) (auto simp: edges_def adjacent_def)
  qed
  moreover have "m (EdgeVar i j) \<noteq> m (EdgeVar k j)"
    if "i < length A" "j < i" "k < i" "\<not> k < j" "A ! i ! j = 1" "A ! k ! j = 1" for i j k
  proof -
    have "k \<noteq> j" using that no_loop [OF sg, of j] by auto
    then show ?thesis using that by (intro R) (auto simp: edges_def adjacent_def)
  qed
  ultimately show ?L
    unfolding ec_conflicts_pure_def by simp
next
  assume L: ?L
  have a: "m (EdgeVar i j) \<noteq> m (EdgeVar i k)" if "i < length A" "j < i" "k < j" "A ! i ! j = 1" "A ! i ! k = 1" for i j k
    using L that unfolding ec_conflicts_pure_def by simp
  have b: "m (EdgeVar i j) \<noteq> m (EdgeVar j k)" if "i < length A" "j < i" "k < j" "A ! i ! j = 1" "A ! k ! j = 1" for i j k
    using L that unfolding ec_conflicts_pure_def by simp
  have c: "m (EdgeVar i j) \<noteq> m (EdgeVar k j)" if "i < length A" "j < i" "j < k" "k < i" "A ! i ! j = 1" "A ! k ! j = 1" for i j k
    using L that unfolding ec_conflicts_pure_def by auto
  show ?R
  proof (intro ballI impI)
    fix e f assume e: "e \<in> edges A" and f: "f \<in> edges A" and adj: "adjacent e f"
    obtain i j where [simp]: "e = (i, j)" by (cases e)
    obtain k l where [simp]: "f = (k, l)" by (cases f)
    from e have ij: "j < i" "i < length A" "A ! i ! j = 1" by (auto simp: edges_def)
    from f have kl: "l < k" "k < length A" "A ! k ! l = 1" by (auto simp: edges_def)
    have sym: "\<And>x y. x < length A \<Longrightarrow> y < length A \<Longrightarrow> A ! x ! y = A ! y ! x"
      using sg by (simp add: simple_graph_def)
    from adj consider "i = k" "j \<noteq> l" | "i = l" | "j = k" | "j = l" "i \<noteq> k"
      by (auto simp: adjacent_def)
    then show "ec_colour m e \<noteq> ec_colour m f"
    proof cases
      case 1
      then consider "l < j" | "j < l" by linarith
      then show ?thesis
        using 1 ij kl a [of i j l] a [of i l j] by cases (auto simp: ec_colour_def)
    next
      case 2
      have "A ! j ! i = 1" using sym [of i j] ij by simp
      then show ?thesis
        using 2 ij kl b [of k i j] by (auto simp: ec_colour_def)
    next
      case 3
      have "A ! l ! k = 1" using sym [of k l] kl by simp
      then show ?thesis
        using 3 ij kl b [of i j l] by (auto simp: ec_colour_def)
    next
      case 4
      then consider "k < i" | "i < k" by linarith
      then show ?thesis
        using 4 ij kl c [of i j k] c [of k j i] by cases (auto simp: ec_colour_def)
    qed
  qed
qed

lemma ec_bounds_sem:
  "satisfies m (ec_bounds (ec_vars A) d) \<longleftrightarrow>
   (\<forall>e\<in>edges A. 0 \<le> ec_colour m e \<and> ec_colour m e < d)"
  by (auto simp: ec_bounds_def set_ec_vars ec_colour_def)

lemma ec_plain_sem:
  assumes "simple_graph A"
  shows "satisfies m (ec_bounds (ec_vars A) d @ ec_conflicts_pure A) \<longleftrightarrow> proper A d (ec_colour m)"
  by (simp add: ec_bounds_sem ec_conflicts_sem [OF assms] proper_def)

lemma ec_colour_model [simp]: "ec_colour (ec_model c) = c"
  by (auto simp: ec_colour_def ec_model_def)

lemma ec_fix_simple:
  assumes "\<And>i v. (i, v) \<in> set ivs \<Longrightarrow> v = 1 \<Longrightarrow> star_edge r i \<in> edges A"
  shows "ec_fix (ec_vars A) (int r) ivs c = Inr (ec_fix_pure r ivs c)"
  using assms
proof (induction ivs arbitrary: c)
  case Nil
  then show ?case by simp
next
  case (Cons a ivs)
  obtain i v where a: "a = (i, v)" by (cases a)
  have IH: "ec_fix (ec_vars A) (int r) ivs c' = Inr (ec_fix_pure r ivs c')" for c'
    using Cons by auto
  show ?case
  proof (cases "v = 1")
    case False
    then show ?thesis by (simp add: a IH)
  next
    case True
    then have "star_edge r i \<in> edges A" using Cons.prems a by auto
    then have "lookup (ec_vars A) (star_edge r i) = Inr (EdgeVar (fst (star_edge r i)) (snd (star_edge r i)))"
      using lookup_ec_vars [of "fst (star_edge r i)" "snd (star_edge r i)" A] by simp
    then show ?thesis
      using True by (auto simp: a IH lookup_int_def star_edge_def)
  qed
qed

lemma ec_fix_sem:
  "satisfies m (ec_fix_pure r ivs c) \<longleftrightarrow>
   (\<forall>t<length (ones ivs). ec_colour m (star_edge r (ones ivs ! t)) = c + int t)"
proof (induction ivs arbitrary: c)
  case Nil
  then show ?case by (simp add: ones_def)
next
  case (Cons a ivs)
  obtain i v where a: "a = (i, v)" by (cases a)
  show ?case
  proof (cases "v = 1")
    case False
    then show ?thesis using Cons [of c] by (simp add: a ones_def)
  next
    case True
    have o: "ones (a # ivs) = i # ones ivs" using True by (simp add: a ones_def)
    have "(\<forall>t<length (ones (a # ivs)). ec_colour m (star_edge r (ones (a # ivs) ! t)) = c + int t)
       \<longleftrightarrow> ec_colour m (star_edge r i) = c \<and>
           (\<forall>t<length (ones ivs). ec_colour m (star_edge r (ones ivs ! t)) = (c + 1) + int t)"
      unfolding o by (simp add: All_less_Suc2 add.assoc)
    then show ?thesis
      using True Cons [of "c + 1"] by (simp add: a ec_colour_def)
  qed
qed

lemma swapc_inj: "swapc a b x = swapc a b y \<longleftrightarrow> x = y"
  by (auto simp: swapc_def)

lemma proper_swap:
  assumes "proper A d c" "0 \<le> a" "a < d" "0 \<le> b" "b < d"
  shows "proper A d (\<lambda>e. swapc a b (c e))"
  using assms unfolding proper_def by (auto simp: swapc_inj) (auto simp: swapc_def)

lemma star_relabel:
  assumes "distinct nb" "r \<notin> set nb" "\<And>i. i \<in> set nb \<Longrightarrow> star_edge r i \<in> edges A"
    and "proper A d c"
  shows "\<exists>c'. proper A d c' \<and> (\<forall>t<length nb. c' (star_edge r (nb ! t)) = int t)"
  using assms(1-3)
proof (induction nb rule: rev_induct)
  case Nil
  then show ?case using assms(4) by auto
next
  case (snoc x xs)
  then obtain c1 where c1: "proper A d c1"
    and fix1: "\<And>t. t < length xs \<Longrightarrow> c1 (star_edge r (xs ! t)) = int t"
    by auto
  let ?k = "int (length xs)"
  let ?a = "c1 (star_edge r x)"
  have ex: "star_edge r x \<in> edges A" using snoc.prems by simp
  have a_rng: "0 \<le> ?a" "?a < d" using c1 ex by (auto simp: proper_def)
  have neq: "?a \<noteq> int t" if "t < length xs" for t
  proof -
    have "xs ! t \<in> set xs" using that by simp
    then have "xs ! t \<noteq> x" "xs ! t \<noteq> r" "x \<noteq> r" "star_edge r (xs ! t) \<in> edges A"
      using snoc.prems by auto
    then have "adjacent (star_edge r x) (star_edge r (xs ! t))"
      by (auto simp: adjacent_def star_edge_def)
    then have "?a \<noteq> c1 (star_edge r (xs ! t))"
      using c1 ex \<open>star_edge r (xs ! t) \<in> edges A\<close> by (auto simp: proper_def)
    then show ?thesis using fix1 [OF that] by simp
  qed
  have "?k \<le> ?a"
  proof (rule ccontr)
    assume "\<not> ?k \<le> ?a"
    then have "nat ?a < length xs" "int (nat ?a) = ?a" using a_rng by auto
    then show False using neq [of "nat ?a"] by simp
  qed
  then have k_rng: "0 \<le> ?k" "?k < d" using a_rng by auto
  let ?c2 = "\<lambda>e. swapc ?a ?k (c1 e)"
  have p2: "proper A d ?c2"
    by (rule proper_swap [OF c1 a_rng k_rng])
  have "?c2 (star_edge r ((xs @ [x]) ! t)) = int t" if "t < length (xs @ [x])" for t
  proof (cases "t < length xs")
    case True
    then show ?thesis using fix1 [OF True] neq [OF True] by (simp add: nth_append swapc_def)
  next
    case False
    then have "t = length xs" using that by simp
    then show ?thesis by (simp add: swapc_def)
  qed
  with p2 show ?case by blast
qed

lemma max_row_step_range:
  "snd (foldl (\<lambda>(max_ones, row_index) (i, row).
              if sum_list row > max_ones then (sum_list row, int i) else (max_ones, row_index))
         (mx, r) (enumerate k rows)) = r \<or>
   (int k \<le> snd (foldl (\<lambda>(max_ones, row_index) (i, row).
              if sum_list row > max_ones then (sum_list row, int i) else (max_ones, row_index))
         (mx, r) (enumerate k rows)) \<and>
    snd (foldl (\<lambda>(max_ones, row_index) (i, row).
              if sum_list row > max_ones then (sum_list row, int i) else (max_ones, row_index))
         (mx, r) (enumerate k rows)) < int k + int (length rows))"
proof (induction rows arbitrary: mx r k)
  case Nil
  then show ?case by simp
next
  case (Cons row rows)
  show ?case
    using Cons [of "sum_list row" "int k" "Suc k"] Cons [of mx r "Suc k"]
    by (auto split: if_splits)
qed

lemma max_row_range:
  assumes "A \<noteq> []" "0 \<le> sum_list (hd A)"
  shows "0 \<le> snd (max_row A) \<and> snd (max_row A) < int (length A)"
proof -
  obtain row rows where A: "A = row # rows" using assms(1) by (cases A) auto
  have "0 \<le> sum_list row" using assms(2) A by simp
  then show ?thesis
    using max_row_step_range [of "sum_list row" 0 1 rows]
    by (auto simp: max_row_def A)
qed

lemma simple_row_nonneg:
  assumes "simple_graph A" "i < length A"
  shows "0 \<le> sum_list (A ! i)"
proof (rule sum_list_nonneg)
  fix x assume "x \<in> set (A ! i)"
  then obtain j where "j < length (A ! i)" "x = A ! i ! j" by (auto simp: in_set_conv_nth)
  then have "j < length A" "x = A ! i ! j" using assms by (auto simp: simple_graph_def)
  then have "x = 0 \<or> x = 1" using assms by (simp add: simple_graph_def)
  then show "0 \<le> x" by auto
qed

lemma star_edge_in:
  assumes sg: "simple_graph A" and "r < length A" "i < length A" "A ! r ! i = 1"
  shows "star_edge r i \<in> edges A" "i \<noteq> r"
proof -
  show "i \<noteq> r" using no_loop [OF sg, of r] assms by auto
  then show "star_edge r i \<in> edges A"
    using assms by (auto simp: star_edge_def edges_def simple_graph_def)
qed

lemma ec_symmetry_simple:
  assumes sg: "simple_graph A" and ne: "A \<noteq> []"
  shows "ec_symmetry A (ec_vars A) = Inr (ec_star A)"
proof -
  define r where "r = nat (snd (max_row A))"
  have "0 \<le> sum_list (hd A)"
    using simple_row_nonneg [OF sg, of 0] ne by (simp add: hd_conv_nth)
  then have rng: "0 \<le> snd (max_row A)" "snd (max_row A) < int (length A)"
    using max_row_range [OF ne] by auto
  then have r: "r < length A" "int r = snd (max_row A)" by (auto simp: r_def)
  have get: "py_get A (snd (max_row A)) = Inr (A ! r)"
    using rng by (simp add: py_get_def r_def)
  have len: "length (A ! r) = length A" using sg r by (simp add: simple_graph_def)
  have "ec_fix (ec_vars A) (int r) (enumerate 0 (A ! r)) 0 = Inr (ec_fix_pure r (enumerate 0 (A ! r)) 0)"
  proof (rule ec_fix_simple)
    fix i v assume "(i, v) \<in> set (enumerate 0 (A ! r))" "v = 1"
    then have "i < length A" "A ! r ! i = 1" using len by (auto simp: in_set_enumerate_eq)
    then show "star_edge r i \<in> edges A" using star_edge_in [OF sg r(1)] by simp
  qed
  then show ?thesis
    using get r by (simp add: ec_symmetry_def ec_star_def r_def Let_def)
qed

lemma ec_constraints_simple:
  assumes "simple_graph A" "sb \<Longrightarrow> A \<noteq> []"
  shows "ec_constraints A d sb = Inr (ec_vars A, ec_pure A d sb)"
  using assms
  by (simp add: ec_constraints_def ec_declare_simple ec_conflicts_simple ec_symmetry_simple
      ec_pure_def)

lemma ec_constraints_empty_sb: "ec_constraints [] d True = Inl IndexError"
  by (simp add: ec_constraints_def ec_declare_def ec_conflicts_def ec_symmetry_def max_row_def
      py_get_def)

lemma length_ones_enumerate:
  "length (ones (enumerate k xs)) = length (filter (\<lambda>x. x = 1) xs)"
proof -
  have "length (filter (\<lambda>x. x = 1) (map snd (enumerate k xs))) = length (ones (enumerate k xs))"
    unfolding ones_def filter_map by (simp add: comp_def)
  then show ?thesis by simp
qed

lemma distinct_ones_enumerate: "distinct (ones (enumerate k xs))"
  unfolding ones_def by (rule distinct_map_filter) simp

lemma ones_enumerateD: "i \<in> set (ones (enumerate 0 xs)) \<Longrightarrow> i < length xs \<and> xs ! i = 1"
  by (auto simp: ones_def in_set_enumerate_eq)

lemma ec_star_sem:
  "satisfies m (ec_star A) \<longleftrightarrow>
   (\<forall>t<length (ones (enumerate 0 (A ! nat (snd (max_row A))))).
      ec_colour m (star_edge (nat (snd (max_row A))) (ones (enumerate 0 (A ! nat (snd (max_row A)))) ! t)) = int t)"
  by (simp add: ec_star_def ec_fix_sem)

lemma ec_sat_iff:
  assumes sg: "simple_graph A" and ne: "sb \<Longrightarrow> A \<noteq> []"
  shows "satisfiable (ec_pure A d sb) \<longleftrightarrow> colourable A d"
proof
  assume "satisfiable (ec_pure A d sb)"
  then obtain m where "satisfies m (ec_pure A d sb)" by (auto simp: satisfiable_def)
  then have "proper A d (ec_colour m)"
    using ec_plain_sem [OF sg, of m d] by (simp add: ec_pure_def)
  then show "colourable A d" by (auto simp: colourable_def)
next
  assume "colourable A d"
  then obtain c where c: "proper A d c" by (auto simp: colourable_def)
  show "satisfiable (ec_pure A d sb)"
  proof (cases sb)
    case False
    have "satisfies (ec_model c) (ec_bounds (ec_vars A) d @ ec_conflicts_pure A)"
      using c by (simp only: ec_plain_sem [OF sg] ec_colour_model)
    then show ?thesis using False by (auto simp: satisfiable_def ec_pure_def)
  next
    case True
    define r where "r = nat (snd (max_row A))"
    define nb where "nb = ones (enumerate 0 (A ! r))"
    have "0 \<le> sum_list (hd A)"
      using simple_row_nonneg [OF sg, of 0] ne True by (simp add: hd_conv_nth)
    then have r: "r < length A"
      using max_row_range [of A] ne True by (auto simp: r_def)
    have len: "length (A ! r) = length A" using sg r by (simp add: simple_graph_def)
    have in_nb: "star_edge r i \<in> edges A \<and> i \<noteq> r" if "i \<in> set nb" for i
      using ones_enumerateD [of i "A ! r"] that star_edge_in [OF sg r, of i] len
      by (auto simp: nb_def)
    have "\<exists>c'. proper A d c' \<and> (\<forall>t<length nb. c' (star_edge r (nb ! t)) = int t)"
    proof (rule star_relabel [OF _ _ _ c])
      show "distinct nb" by (simp add: nb_def distinct_ones_enumerate)
      show "r \<notin> set nb" using in_nb by auto
      show "\<And>i. i \<in> set nb \<Longrightarrow> star_edge r i \<in> edges A" using in_nb by auto
    qed
    then obtain c' where c': "proper A d c'"
      and fx: "\<forall>t<length nb. c' (star_edge r (nb ! t)) = int t" by blast
    have 1: "satisfies (ec_model c') (ec_bounds (ec_vars A) d @ ec_conflicts_pure A)"
      using c' by (simp only: ec_plain_sem [OF sg] ec_colour_model)
    have 2: "satisfies (ec_model c') (ec_star A)"
      using fx by (simp only: ec_star_sem ec_colour_model r_def [symmetric] nb_def [symmetric])
    from 1 2 show ?thesis
      by (auto simp: satisfiable_def ec_pure_def)
  qed
qed

lemma proper_mono: "proper A d c \<Longrightarrow> d \<le> d' \<Longrightarrow> proper A d' c"
  by (fastforce simp: proper_def)

lemma colourable_mono: "colourable A d \<Longrightarrow> d \<le> d' \<Longrightarrow> colourable A d'"
  unfolding colourable_def by (blast intro: proper_mono)

lemma mod_shift_le:
  fixes n :: nat
  assumes "y \<le> y'" "y' < n" "(x + y) mod n = (x + y') mod n"
  shows "y = y'"
proof -
  have "n dvd (x + y') - (x + y)"
    using mod_eq_dvd_iff_nat [of "x + y" "x + y'" n] assms by simp
  then have "n dvd y' - y" by simp
  moreover have "y' - y < n" using assms by simp
  ultimately have "y' - y = 0" by (meson dvd_imp_le not_le zero_less_iff_neq_zero)
  then show ?thesis using assms by simp
qed

lemma mod_shift_inj:
  fixes n :: nat
  assumes "y < n" "y' < n" "(x + y) mod n = (x + y') mod n"
  shows "y = y'"
proof (cases "y \<le> y'")
  case True
  then show ?thesis using mod_shift_le assms by blast
next
  case False
  then have "y' \<le> y" by simp
  then have "y' = y" using mod_shift_le [of y' y n x] assms by simp
  then show ?thesis by simp
qed

lemma proper_round_robin: "proper A (int (length A)) (round_robin (length A))"
  unfolding proper_def
proof (intro conjI ballI impI)
  fix e assume "e \<in> edges A"
  then have "0 < length A" by (auto simp: edges_def)
  then show "0 \<le> round_robin (length A) e" "round_robin (length A) e < int (length A)"
    by (simp_all add: round_robin_def)
next
  fix e f assume e: "e \<in> edges A" and f: "f \<in> edges A" and adj: "adjacent e f"
  obtain i j where [simp]: "e = (i, j)" by (cases e)
  obtain k l where [simp]: "f = (k, l)" by (cases f)
  from e have ij: "j < i" "i < length A" by (auto simp: edges_def)
  from f have kl: "l < k" "k < length A" by (auto simp: edges_def)
  show "round_robin (length A) e \<noteq> round_robin (length A) f"
  proof
    assume "round_robin (length A) e = round_robin (length A) f"
    then have eq: "(i + j) mod length A = (k + l) mod length A"
      by (simp add: round_robin_def)
    from adj consider "i = k" "j \<noteq> l" | "i = l" | "j = k" | "j = l" "i \<noteq> k"
      by (auto simp: adjacent_def)
    then show False
    proof cases
      case 1
      then show ?thesis using mod_shift_inj [of j "length A" l i] eq ij kl by simp
    next
      case 2
      then show ?thesis using mod_shift_inj [of j "length A" k i] eq ij kl
        by (simp add: add.commute)
    next
      case 3
      then show ?thesis using mod_shift_inj [of i "length A" l j] eq ij kl
        by (simp add: add.commute)
    next
      case 4
      then show ?thesis using mod_shift_inj [of i "length A" k j] eq ij kl
        by (simp add: add.commute)
    qed
  qed
qed

lemma colourable_nodes: "colourable A (int (length A))"
  using proper_round_robin by (auto simp: colourable_def)

lemma lookup_unique:
  assumes "(k, v) \<in> set d" "\<And>v'. (k, v') \<in> set d \<Longrightarrow> v' = v"
  shows "lookup d k = Inr v"
proof -
  have "k \<in> fst ` set d" using assms(1) by force
  then obtain x where x: "map_of d k = Some x"
    by (metis map_of_eq_None_iff not_Some_eq)
  then have "(k, x) \<in> set d" by (rule map_of_SomeD)
  then have "x = v" by (rule assms(2))
  with x show ?thesis by (simp add: lookup_def)
qed

lemma sat_declare_simple:
  assumes "simple_graph A"
  shows "sat_declare A = Inr (sat_decls A)"
  unfolding sat_declare_def sat_decls_def
  by (rule concatE_Inr, rule concatE_Inr) (simp add: cell_simple [OF assms])

lemma set_sat_decls:
  "set (sat_decls A) = {(b, (i, j)) | b i j. j < i \<and> i < length A \<and> b = (A ! i ! j = 1)}"
  by (auto simp: sat_decls_def)

lemma set_cz_gates:
  "set (cz_gates (sat_decls A)) = (\<lambda>(i, j). ((i, j), CzVar i j)) ` edges A"
  by (auto simp: cz_gates_def set_sat_decls edges_def image_iff)

lemma lookup_cz:
  assumes "(i, j) \<in> edges A"
  shows "lookup (cz_gates (sat_decls A)) (i, j) = Inr (CzVar i j)"
  by (rule lookup_unique) (use assms in \<open>auto simp: set_cz_gates\<close>)

lemma lookup_ident:
  assumes "j < i" "i < length A" "A ! i ! j \<noteq> 1"
  shows "lookup (identities (sat_decls A)) (i, j) = Inr (IdVar i j)"
  by (rule lookup_unique) (use assms in \<open>auto simp: identities_def set_sat_decls image_iff\<close>)

lemma sym: "simple_graph A \<Longrightarrow> x < length A \<Longrightarrow> y < length A \<Longrightarrow> A ! x ! y = A ! y ! x"
  by (simp add: simple_graph_def)

lemma concatE_loop2:
  assumes "\<And>i j. i < n \<Longrightarrow> j < i \<Longrightarrow> f i j = Inr (g i j)"
  shows "concatE (\<lambda>i. concatE (f i) [0..<i]) [0..<n] =
         Inr (concat (map (\<lambda>i. concat (map (g i) [0..<i])) [0..<n]))"
  by (rule concatE_Inr, rule concatE_Inr) (simp add: assms)

lemma concatE_upt:
  assumes "\<And>k. k < n \<Longrightarrow> f k = Inr (g k)"
  shows "concatE f [0..<n] = Inr (concat (map g [0..<n]))"
  by (rule concatE_Inr) (simp add: assms)

lemma sat_conflicts_simple:
  assumes sg: "simple_graph A"
  shows "sat_conflicts A (cz_gates (sat_decls A)) (identities (sat_decls A)) =
         Inr (sat_conflicts_pure A)"
  unfolding sat_conflicts_def sat_conflicts_pure_def
proof (rule concatE_loop2)
  fix i j assume i: "i < length A" and j: "j < i"
  let ?cz = "cz_gates (sat_decls A)" and ?id = "identities (sat_decls A)"
  show "bindE (cell A i j) (\<lambda>a.
          if a = 1 then
            bindE (concatE (\<lambda>k.
               bindE (cell A i k) (\<lambda>b.
                 if b = 1 then neq2 (lookup ?cz (i, j)) (lookup ?cz (i, k))
                 else neq2 (lookup ?cz (i, j)) (lookup ?id (i, k))))
              [0..<j]) (\<lambda>c1.
            bindE (concatE (\<lambda>k.
               if k = j then Inr []
               else bindE (cell A j k) (\<lambda>b.
                 if b = 1 then
                   (if j > k then neq2 (lookup ?cz (i, j)) (lookup ?cz (j, k))
                    else neq2 (lookup ?cz (i, j)) (lookup ?cz (k, j)))
                 else
                   (if j > k then neq2 (lookup ?cz (i, j)) (lookup ?id (j, k))
                    else neq2 (lookup ?cz (i, j)) (lookup ?id (k, j)))))
              [0..<i]) (\<lambda>c2. Inr (c1 @ c2)))
          else Inr []) =
        Inr (if A ! i ! j = 1 then
          concat (map (\<lambda>k.
            if A ! i ! k = 1 then [NeqV (CzVar i j) (CzVar i k)]
            else [NeqV (CzVar i j) (IdVar i k)]) [0..<j]) @
          concat (map (\<lambda>k.
            if k = j then []
            else if A ! j ! k = 1
            then (if j > k then [NeqV (CzVar i j) (CzVar j k)]
                  else [NeqV (CzVar i j) (CzVar k j)])
            else (if j > k then [NeqV (CzVar i j) (IdVar j k)]
                  else [NeqV (CzVar i j) (IdVar k j)])) [0..<i])
        else [])"
  proof (cases "A ! i ! j = 1")
    case False
    with i j show ?thesis by (simp add: cell_simple [OF sg])
  next
    case True
    have e: "lookup ?cz (i, j) = Inr (CzVar i j)"
      using True i j by (intro lookup_cz edges_lower [OF sg])
    have 1: "concatE (\<lambda>k.
               bindE (cell A i k) (\<lambda>b.
                 if b = 1 then neq2 (lookup ?cz (i, j)) (lookup ?cz (i, k))
                 else neq2 (lookup ?cz (i, j)) (lookup ?id (i, k)))) [0..<j] =
             Inr (concat (map (\<lambda>k.
               if A ! i ! k = 1 then [NeqV (CzVar i j) (CzVar i k)]
               else [NeqV (CzVar i j) (IdVar i k)]) [0..<j]))"
      by (rule concatE_upt)
        (use i j e in \<open>simp add: cell_simple [OF sg] lookup_cz lookup_ident edges_lower [OF sg]\<close>)
    have 2: "concatE (\<lambda>k.
               if k = j then Inr []
               else bindE (cell A j k) (\<lambda>b.
                 if b = 1 then
                   (if j > k then neq2 (lookup ?cz (i, j)) (lookup ?cz (j, k))
                    else neq2 (lookup ?cz (i, j)) (lookup ?cz (k, j)))
                 else
                   (if j > k then neq2 (lookup ?cz (i, j)) (lookup ?id (j, k))
                    else neq2 (lookup ?cz (i, j)) (lookup ?id (k, j))))) [0..<i] =
             Inr (concat (map (\<lambda>k.
               if k = j then []
               else if A ! j ! k = 1
               then (if j > k then [NeqV (CzVar i j) (CzVar j k)]
                     else [NeqV (CzVar i j) (CzVar k j)])
               else (if j > k then [NeqV (CzVar i j) (IdVar j k)]
                     else [NeqV (CzVar i j) (IdVar k j)])) [0..<i]))"
    proof (rule concatE_upt)
      fix k assume k: "k < i"
      have c: "cell A j k = Inr (A ! j ! k)"
        using i j k by (simp add: cell_simple [OF sg])
      have s: "A ! k ! j = A ! j ! k" using sym [OF sg, of k j] i j k by simp
      consider "k = j" | "k < j" | "j < k" by linarith
      then show "(if k = j then Inr []
               else bindE (cell A j k) (\<lambda>b.
                 if b = 1 then
                   (if j > k then neq2 (lookup ?cz (i, j)) (lookup ?cz (j, k))
                    else neq2 (lookup ?cz (i, j)) (lookup ?cz (k, j)))
                 else
                   (if j > k then neq2 (lookup ?cz (i, j)) (lookup ?id (j, k))
                    else neq2 (lookup ?cz (i, j)) (lookup ?id (k, j))))) =
             Inr (if k = j then []
               else if A ! j ! k = 1
               then (if j > k then [NeqV (CzVar i j) (CzVar j k)]
                     else [NeqV (CzVar i j) (CzVar k j)])
               else (if j > k then [NeqV (CzVar i j) (IdVar j k)]
                     else [NeqV (CzVar i j) (IdVar k j)]))"
      proof cases
        case 1
        then show ?thesis by simp
      next
        case 2
        then show ?thesis
          using i j e by (simp add: c lookup_cz lookup_ident edges_lower [OF sg])
      next
        case 3
        then show ?thesis
          using i j k e s by (simp add: c lookup_cz lookup_ident edges_lower [OF sg])
      qed
    qed
    show ?thesis
      using True i j by (simp add: cell_simple [OF sg] 1 2)
  qed
qed

lemma sat_symmetry_simple:
  assumes sg: "simple_graph A"
  shows "sat_symmetry A (cz_gates (sat_decls A)) (identities (sat_decls A)) =
         Inr (sat_symmetry_pure A)"
  unfolding sat_symmetry_def sat_symmetry_pure_def
proof (rule concatE_loop2)
  fix i j assume i: "i < length A" and j: "j < i"
  let ?cz = "cz_gates (sat_decls A)" and ?id = "identities (sat_decls A)"
  show "bindE (cell A i j) (\<lambda>a.
          if a = 1 then
            bindE (concatE (\<lambda>k.
               bindE (cell A i k) (\<lambda>b.
                 if b \<noteq> 1 then lt2 (lookup ?cz (i, j)) (lookup ?id (i, k))
                 else Inr []))
              [0..<j]) (\<lambda>c1.
            bindE (concatE (\<lambda>k.
               if k = j then Inr []
               else bindE (cell A j k) (\<lambda>b.
                 if b \<noteq> 1 then
                   (if j > k then lt2 (lookup ?cz (i, j)) (lookup ?id (j, k))
                    else lt2 (lookup ?cz (i, j)) (lookup ?id (k, j)))
                 else Inr []))
              [0..<i]) (\<lambda>c2. Inr (c1 @ c2)))
          else Inr []) =
        Inr (if A ! i ! j = 1 then
          concat (map (\<lambda>k.
            if A ! i ! k \<noteq> 1 then [LtV (CzVar i j) (IdVar i k)] else []) [0..<j]) @
          concat (map (\<lambda>k.
            if k = j then []
            else if A ! j ! k \<noteq> 1
            then (if j > k then [LtV (CzVar i j) (IdVar j k)]
                  else [LtV (CzVar i j) (IdVar k j)])
            else []) [0..<i])
        else [])"
  proof (cases "A ! i ! j = 1")
    case False
    with i j show ?thesis by (simp add: cell_simple [OF sg])
  next
    case True
    have e: "lookup ?cz (i, j) = Inr (CzVar i j)"
      using True i j by (intro lookup_cz edges_lower [OF sg])
    have 1: "concatE (\<lambda>k.
               bindE (cell A i k) (\<lambda>b.
                 if b \<noteq> 1 then lt2 (lookup ?cz (i, j)) (lookup ?id (i, k))
                 else Inr [])) [0..<j] =
             Inr (concat (map (\<lambda>k.
               if A ! i ! k \<noteq> 1 then [LtV (CzVar i j) (IdVar i k)] else []) [0..<j]))"
      by (rule concatE_upt)
        (use i j e in \<open>simp add: cell_simple [OF sg] lookup_ident\<close>)
    have 2: "concatE (\<lambda>k.
               if k = j then Inr []
               else bindE (cell A j k) (\<lambda>b.
                 if b \<noteq> 1 then
                   (if j > k then lt2 (lookup ?cz (i, j)) (lookup ?id (j, k))
                    else lt2 (lookup ?cz (i, j)) (lookup ?id (k, j)))
                 else Inr [])) [0..<i] =
             Inr (concat (map (\<lambda>k.
               if k = j then []
               else if A ! j ! k \<noteq> 1
               then (if j > k then [LtV (CzVar i j) (IdVar j k)]
                     else [LtV (CzVar i j) (IdVar k j)])
               else []) [0..<i]))"
    proof (rule concatE_upt)
      fix k assume k: "k < i"
      have c: "cell A j k = Inr (A ! j ! k)"
        using i j k by (simp add: cell_simple [OF sg])
      have s: "A ! k ! j = A ! j ! k" using sym [OF sg, of k j] i j k by simp
      consider "k = j" | "k < j" | "j < k" by linarith
      then show "(if k = j then Inr []
               else bindE (cell A j k) (\<lambda>b.
                 if b \<noteq> 1 then
                   (if j > k then lt2 (lookup ?cz (i, j)) (lookup ?id (j, k))
                    else lt2 (lookup ?cz (i, j)) (lookup ?id (k, j)))
                 else Inr [])) =
             Inr (if k = j then []
               else if A ! j ! k \<noteq> 1
               then (if j > k then [LtV (CzVar i j) (IdVar j k)]
                     else [LtV (CzVar i j) (IdVar k j)])
               else [])"
      proof cases
        case 1
        then show ?thesis by simp
      next
        case 2
        then show ?thesis
          using i j e by (simp add: c lookup_ident)
      next
        case 3
        then show ?thesis
          using i j k e s by (simp add: c lookup_ident)
      qed
    qed
    show ?thesis
      using True i j by (simp add: cell_simple [OF sg] 1 2)
  qed
qed

lemma sat_constraints_simple:
  assumes "simple_graph A"
  shows "sat_constraints A d sb = Inr (cz_gates (sat_decls A), sat_pure A d sb)"
  using assms
  by (simp add: sat_constraints_def sat_declare_simple sat_conflicts_simple sat_symmetry_simple
      sat_pure_def)

lemma sat_pure_proper:
  assumes sg: "simple_graph A" and L: "satisfies m (sat_pure A d sb)"
  shows "proper A d (cz_colour m)"
proof -
  have B: "satisfies m (sat_bounds (sat_decls A) d)" and C: "satisfies m (sat_conflicts_pure A)"
    using L by (simp_all add: sat_pure_def)
  have rng: "0 \<le> m (CzVar i j) \<and> m (CzVar i j) < d" if "(i, j) \<in> edges A" for i j
  proof -
    have "(True, (i, j)) \<in> set (sat_decls A)"
      using that by (auto simp: set_sat_decls edges_def)
    then show ?thesis using B unfolding sat_bounds_def by (simp only: satisfies_concat_map) force
  qed
  have a: "m (CzVar i j) \<noteq> m (CzVar i k)"
    if "i < length A" "j < i" "k < j" "A ! i ! j = 1" "A ! i ! k = 1" for i j k
    using C that unfolding sat_conflicts_pure_def by simp
  have b: "m (CzVar i j) \<noteq> m (CzVar j k)"
    if "i < length A" "j < i" "k < j" "A ! i ! j = 1" "A ! j ! k = 1" for i j k
    using C that unfolding sat_conflicts_pure_def by simp
  have c: "m (CzVar i j) \<noteq> m (CzVar k j)"
    if "i < length A" "j < i" "j < k" "k < i" "A ! i ! j = 1" "A ! j ! k = 1" for i j k
    using C that unfolding sat_conflicts_pure_def by auto
  show ?thesis
    unfolding proper_def
  proof (intro conjI ballI impI)
    fix e assume "e \<in> edges A"
    then show "0 \<le> cz_colour m e" "cz_colour m e < d"
      using rng [of "fst e" "snd e"] by (simp_all add: cz_colour_def)
  next
    fix e f assume e: "e \<in> edges A" and f: "f \<in> edges A" and adj: "adjacent e f"
    obtain i j where [simp]: "e = (i, j)" by (cases e)
    obtain k l where [simp]: "f = (k, l)" by (cases f)
    from e have ij: "j < i" "i < length A" "A ! i ! j = 1" by (auto simp: edges_def)
    from f have kl: "l < k" "k < length A" "A ! k ! l = 1" by (auto simp: edges_def)
    from adj consider "i = k" "j \<noteq> l" | "i = l" | "j = k" | "j = l" "i \<noteq> k"
      by (auto simp: adjacent_def)
    then show "cz_colour m e \<noteq> cz_colour m f"
    proof cases
      case 1
      then consider "l < j" | "j < l" by linarith
      then show ?thesis
        using 1 ij kl a [of i j l] a [of i l j] by cases (auto simp: cz_colour_def)
    next
      case 2
      then show ?thesis
        using ij kl b [of k i j] by (auto simp: cz_colour_def)
    next
      case 3
      then show ?thesis
        using ij kl b [of i j l] by (auto simp: cz_colour_def)
    next
      case 4
      have "A ! j ! i = 1" "A ! j ! k = 1"
        using sym [OF sg, of i j] sym [OF sg, of k j] ij kl 4 by simp_all
      moreover from 4 consider "k < i" | "i < k" by linarith
      ultimately show ?thesis
        using 4 ij kl c [of i j k] c [of k j i] by cases (auto simp: cz_colour_def)
    qed
  qed
qed

lemma proper_sat_pure:
  assumes sg: "simple_graph A" and p: "proper A d c"
  shows "satisfies (sat_model c d) (sat_pure A d sb)"
proof -
  let ?m = "sat_model c d"
  have rng: "0 \<le> c (i, j) \<and> c (i, j) < d" if "(i, j) \<in> edges A" for i j
    using p that by (auto simp: proper_def)
  have neq: "c (i, j) \<noteq> c (k, l)" if "(i, j) \<in> edges A" "(k, l) \<in> edges A" "adjacent (i, j) (k, l)" for i j k l
    using p that unfolding proper_def by blast
  have 1: "satisfies ?m (sat_bounds (sat_decls A) d)"
    unfolding sat_bounds_def satisfies_concat_map
    using rng by (auto simp: set_sat_decls sat_model_def edges_def)
  have id: "?m (CzVar i j) \<noteq> ?m (IdVar k l) \<and> ?m (CzVar i j) < ?m (IdVar k l)"
    if "i < length A" "j < i" "A ! i ! j = 1" for i j k l
    using rng [of i j] that by (auto simp: sat_model_def edges_def)
  have cz: "?m (CzVar i j) \<noteq> ?m (CzVar k l)"
    if "(i, j) \<in> edges A" "(k, l) \<in> edges A" "adjacent (i, j) (k, l)" for i j k l
    using neq [OF that] by (simp add: sat_model_def)
  have "?m (CzVar i j) \<noteq> ?m (CzVar i k)"
    if "i < length A" "j < i" "k < j" "A ! i ! j = 1" "A ! i ! k = 1" for i j k
    using that by (intro cz) (auto simp: edges_def adjacent_def)
  moreover have "?m (CzVar i j) \<noteq> ?m (CzVar j k)"
    if "i < length A" "j < i" "k < j" "A ! i ! j = 1" "A ! j ! k = 1" for i j k
    using that by (intro cz) (auto simp: edges_def adjacent_def)
  moreover have "?m (CzVar i j) \<noteq> ?m (CzVar k j)"
    if "i < length A" "j < i" "k < i" "k \<noteq> j" "\<not> k < j" "A ! i ! j = 1" "A ! j ! k = 1" for i j k
  proof -
    have "A ! k ! j = 1" using sym [OF sg, of k j] that by simp
    then show ?thesis using that by (intro cz) (auto simp: edges_def adjacent_def)
  qed
  ultimately have 2: "satisfies ?m (sat_conflicts_pure A)"
    unfolding sat_conflicts_pure_def by (simp add: id)
  have 3: "satisfies ?m (sat_symmetry_pure A)"
    unfolding sat_symmetry_pure_def
    by (simp add: id)
  show ?thesis
    using 1 2 3 by (simp add: sat_pure_def)
qed

lemma linear_loop_finds:
  assumes "\<And>d. a \<le> d \<Longrightarrow> d < D \<Longrightarrow> synth d = Inr []"
    and "synth D = Inr M" "M \<noteq> []" "a \<le> D" "D \<le> hi"
  shows "linear_loop synth [a..hi] st =
         Inr (st\<lparr>ls_depth := D, ls_solver_calls := ls_solver_calls st + nat (D - a + 1),
                 ls_probed := ls_probed st @ [a..D], ls_mapping := Some M\<rparr>)"
  using assms
proof (induction "nat (D - a)" arbitrary: a st)
  case 0
  then have [simp]: "a = D" by simp
  have "[D..hi] = D # [D + 1..hi]" using 0 by (simp add: upto_rec1)
  then show ?case using 0 by (simp add: Let_def)
next
  case (Suc n)
  then have lt: "a < D" by linarith
  have u: "[a..hi] = a # [a + 1..hi]" using Suc.prems lt by (simp add: upto_rec1)
  have u2: "[a..D] = a # [a + 1..D]" using lt by (simp add: upto_rec1)
  have e: "synth a = Inr []" using Suc.prems(1) [of a] lt by simp
  have n: "n = nat (D - (a + 1))" using Suc.hyps(2) by linarith
  have IH: "linear_loop synth [a + 1..hi] st' =
         Inr (st'\<lparr>ls_depth := D, ls_solver_calls := ls_solver_calls st' + nat (D - (a + 1) + 1),
                 ls_probed := ls_probed st' @ [a + 1..D], ls_mapping := Some M\<rparr>)" for st'
    using Suc.hyps(1) [OF n, of st'] Suc.prems lt by simp
  have "nat (D - a + 1) = Suc (nat (D - (a + 1) + 1))" using lt by linarith
  then show ?case
    by (simp add: u u2 e Let_def IH)
qed

lemma linear_loop_exhausted:
  assumes "\<And>d. a \<le> d \<Longrightarrow> d \<le> hi \<Longrightarrow> synth d = Inr []"
  shows "\<exists>st'. linear_loop synth [a..hi] st = Inr st' \<and> ls_mapping st' = ls_mapping st"
  using assms
proof (induction "nat (hi + 1 - a)" arbitrary: a st)
  case 0
  then have "[a..hi] = []" by simp
  then show ?case by simp
next
  case (Suc n)
  then have le: "a \<le> hi" by linarith
  have u: "[a..hi] = a # [a + 1..hi]" using le by (simp add: upto_rec1)
  have e: "synth a = Inr []" using Suc.prems [of a] le by simp
  have n: "n = nat (hi + 1 - (a + 1))" using Suc.hyps(2) by linarith
  let ?st = "st\<lparr>ls_depth := a, ls_solver_calls := ls_solver_calls st + 1,
                 ls_probed := ls_probed st @ [a]\<rparr>"
  have "\<exists>st'. linear_loop synth [a + 1..hi] ?st = Inr st' \<and> ls_mapping st' = ls_mapping ?st"
    by (rule Suc.hyps(1) [OF n]) (use Suc.prems in simp)
  then show ?case
    by (simp add: u e Let_def)
qed

lemma probe_total:
  assumes "\<And>d. synth d = Inr (f d)"
  shows "probe synth d st =
     Inr (st\<lparr>mappings_at_depth := (mappings_at_depth st)(d \<mapsto> f d),
             bs_solver_calls := bs_solver_calls st + 1\<rparr>)"
  by (simp add: probe_def assms)

lemma binary_step_cases:
  assumes tot: "\<And>d. synth d = Inr (f d)" and ok: "cache_ok f st"
  defines "cur \<equiv> (left_bound_depth st + right_bound_depth st) div 2"
  shows "\<exists>st2. cache_ok f st2 \<and> left_bound_depth st2 = left_bound_depth st
            \<and> right_bound_depth st2 = right_bound_depth st
            \<and> binary_step synth st =
               (if f cur = [] then Inr (Inl (st2\<lparr>left_bound_depth := cur + 1\<rparr>))
                else if cur \<noteq> left_bound_depth st \<and> f (cur - 1) \<noteq> []
                then Inr (Inl (st2\<lparr>right_bound_depth := cur - 1\<rparr>))
                else Inr (Inr (f cur, cur, bs_solver_calls st2)))"
proof -
  define st1 where "st1 = (if cur \<notin> dom (mappings_at_depth st)
      then st\<lparr>mappings_at_depth := (mappings_at_depth st)(cur \<mapsto> f cur),
             bs_solver_calls := bs_solver_calls st + 1\<rparr> else st)"
  define st2 where "st2 = (if cur \<noteq> left_bound_depth st1 \<and> cur - 1 \<notin> dom (mappings_at_depth st1)
      then st1\<lparr>mappings_at_depth := (mappings_at_depth st1)(cur - 1 \<mapsto> f (cur - 1)),
             bs_solver_calls := bs_solver_calls st1 + 1\<rparr> else st1)"
  have p1: "(if cur \<notin> dom (mappings_at_depth st) then probe synth cur st else Inr st) = Inr st1"
    by (simp add: st1_def probe_total [OF tot])
  have p2: "(if cur \<noteq> left_bound_depth st1 \<and> cur - 1 \<notin> dom (mappings_at_depth st1)
             then probe synth (cur - 1) st1 else Inr st1) = Inr st2"
    by (simp add: st2_def probe_total [OF tot])
  have ok1: "cache_ok f st1" using ok by (auto simp: st1_def cache_ok_def)
  then have ok2: "cache_ok f st2" by (auto simp: st2_def cache_ok_def)
  have b1: "left_bound_depth st1 = left_bound_depth st" "right_bound_depth st1 = right_bound_depth st"
    by (simp_all add: st1_def)
  then have b2: "left_bound_depth st2 = left_bound_depth st" "right_bound_depth st2 = right_bound_depth st"
    by (simp_all add: st2_def)
  have "cur \<in> dom (mappings_at_depth st1)" by (auto simp: st1_def)
  then have "cur \<in> dom (mappings_at_depth st2)" by (auto simp: st2_def)
  then have c: "cached st2 cur = Inr (f cur)"
    using ok2 by (auto simp: cached_def cache_ok_def)
  have c': "cached st2 (cur - 1) = Inr (f (cur - 1))" if "cur \<noteq> left_bound_depth st"
  proof -
    have "cur - 1 \<in> dom (mappings_at_depth st2)" using that b1 by (auto simp: st2_def)
    then show ?thesis using ok2 by (auto simp: cached_def cache_ok_def)
  qed
  have "binary_step synth st =
               (if f cur = [] then Inr (Inl (st2\<lparr>left_bound_depth := cur + 1\<rparr>))
                else if cur \<noteq> left_bound_depth st \<and> f (cur - 1) \<noteq> []
                then Inr (Inl (st2\<lparr>right_bound_depth := cur - 1\<rparr>))
                else Inr (Inr (f cur, cur, bs_solver_calls st2)))"
    unfolding binary_step_def cur_def [symmetric] Let_def p1 bindE_Inr p2 c b2
    using c' by simp
  with ok2 b2 show ?thesis by blast
qed

lemma binary_loop_finds:
  assumes tot: "\<And>d. synth d = Inr (f d)"
    and below: "\<And>d. lo \<le> d \<Longrightarrow> d < D \<Longrightarrow> f d = []"
    and above: "\<And>d. D \<le> d \<Longrightarrow> d \<le> hi \<Longrightarrow> f d \<noteq> []"
    and "cache_ok f st" "lo \<le> left_bound_depth st" "left_bound_depth st \<le> D"
        "D \<le> right_bound_depth st" "right_bound_depth st \<le> hi"
  shows "\<exists>calls. binary_loop synth st = Some (Inr (f D, D, calls))"
  using assms(4-)
proof (induction "nat (right_bound_depth st - left_bound_depth st)" arbitrary: st rule: less_induct)
  case less
  define cur where "cur = (left_bound_depth st + right_bound_depth st) div 2"
  have cur: "left_bound_depth st \<le> cur" "cur \<le> right_bound_depth st"
    using less.prems by (auto simp: cur_def)
  obtain st2 where st2: "cache_ok f st2" "left_bound_depth st2 = left_bound_depth st"
      "right_bound_depth st2 = right_bound_depth st"
      "binary_step synth st =
               (if f cur = [] then Inr (Inl (st2\<lparr>left_bound_depth := cur + 1\<rparr>))
                else if cur \<noteq> left_bound_depth st \<and> f (cur - 1) \<noteq> []
                then Inr (Inl (st2\<lparr>right_bound_depth := cur - 1\<rparr>))
                else Inr (Inr (f cur, cur, bs_solver_calls st2)))"
    using binary_step_cases [OF tot less.prems(1)] unfolding cur_def by blast
  show ?case
  proof (cases "f cur = []")
    case True
    then have "cur < D" using above [of cur] cur less.prems by force
    let ?st = "st2\<lparr>left_bound_depth := cur + 1\<rparr>"
    have "\<exists>calls. binary_loop synth ?st = Some (Inr (f D, D, calls))"
      by (rule less.hyps) (use st2 cur less.prems \<open>cur < D\<close> in \<open>auto simp: cache_ok_def\<close>)
    moreover have "binary_loop synth st = binary_loop synth ?st"
      by (subst binary_loop.simps) (simp add: st2(4) True)
    ultimately show ?thesis by simp
  next
    case False
    then have geD: "D \<le> cur" using below [of cur] cur less.prems by force
    show ?thesis
    proof (cases "cur \<noteq> left_bound_depth st \<and> f (cur - 1) \<noteq> []")
      case True
      then have "D \<le> cur - 1" using below [of "cur - 1"] cur less.prems by force
      let ?st = "st2\<lparr>right_bound_depth := cur - 1\<rparr>"
      have "\<exists>calls. binary_loop synth ?st = Some (Inr (f D, D, calls))"
        by (rule less.hyps) (use st2 cur less.prems \<open>D \<le> cur - 1\<close> in \<open>auto simp: cache_ok_def\<close>)
      moreover have "binary_loop synth st = binary_loop synth ?st"
        by (subst binary_loop.simps) (use True False in \<open>simp add: st2(4)\<close>)
      ultimately show ?thesis by simp
    next
      case stop: False
      have "cur = D"
      proof (cases "cur = left_bound_depth st")
        case True
        then show ?thesis using geD less.prems by simp
      next
        case False
        then have "f (cur - 1) = []" using stop by simp
        then have "cur - 1 < D" using above [of "cur - 1"] cur less.prems by force
        then show ?thesis using geD by simp
      qed
      moreover have "binary_loop synth st = Some (Inr (f cur, cur, bs_solver_calls st2))"
        by (subst binary_loop.simps) (use stop False in \<open>auto simp add: st2(4)\<close>)
      ultimately show ?thesis by simp
    qed
  qed
qed

lemma layer_edges_Nil [simp]: "layer_edges [] = []"
  by (simp add: layer_edges_def)

lemma layer_edges_Cons [simp]: "layer_edges ((l, es) # M) = es @ layer_edges M"
  by (simp add: layer_edges_def)

lemma coloured_Nil [simp]: "coloured col []"
  by (simp add: coloured_def)

lemma coloured_Cons [simp]:
  "coloured col ((l, es) # M) \<longleftrightarrow> (\<forall>f\<in>set es. col f = l) \<and> coloured col M"
  by (simp add: coloured_def)

lemma dict_append_set:
  "set (layer_edges (dict_append M c e)) = insert e (set (layer_edges M))"
  by (induction M c e rule: dict_append.induct) auto

lemma dict_append_distinct:
  "distinct (layer_edges M) \<Longrightarrow> e \<notin> set (layer_edges M)
   \<Longrightarrow> distinct (layer_edges (dict_append M c e))"
  by (induction M c e rule: dict_append.induct) (auto simp: dict_append_set)

lemma dict_append_keys: "set (map fst (dict_append M c e)) = insert c (set (map fst M))"
  by (induction M c e rule: dict_append.induct) auto

lemma dict_append_distinct_keys:
  "distinct (map fst M) \<Longrightarrow> distinct (map fst (dict_append M c e))"
proof (induction M c e rule: dict_append.induct)
  case (1 c e)
  then show ?case by simp
next
  case (2 c' es rest c e)
  then show ?case
    using dict_append_keys [of rest c e] by (auto simp del: set_map)
qed

lemma dict_append_coloured:
  "coloured col M \<Longrightarrow> col e = c \<Longrightarrow> coloured col (dict_append M c e)"
  by (induction M c e rule: dict_append.induct) auto

lemma dict_append_ne: "dict_append M c e \<noteq> []"
  by (cases M) (auto split: if_splits)

lemma read_model_snoc:
  "read_model m (vars @ [(e, x)]) = dict_append (read_model m vars) (m x) e"
  by (simp add: read_model_def)

lemma read_model_Nil [simp]: "read_model m [] = []"
  by (simp add: read_model_def)

lemma read_model_empty_iff: "read_model m vars = [] \<longleftrightarrow> vars = []"
  by (cases vars rule: rev_cases) (auto simp: read_model_snoc dict_append_ne)

lemma read_model_set:
  "set (layer_edges (read_model m vars)) = fst ` set vars"
proof (induction vars rule: rev_induct)
  case Nil
  then show ?case by simp
next
  case (snoc a vars)
  obtain e x where a: "a = (e, x)" by (cases a)
  show ?case using snoc by (simp add: a read_model_snoc dict_append_set)
qed

lemma read_model_distinct:
  "distinct (map fst vars) \<Longrightarrow> distinct (layer_edges (read_model m vars))"
proof (induction vars rule: rev_induct)
  case Nil
  then show ?case by simp
next
  case (snoc a vars)
  obtain e x where a: "a = (e, x)" by (cases a)
  have "e \<notin> set (layer_edges (read_model m vars))"
    using snoc.prems by (simp add: a read_model_set)
  then show ?case
    using snoc by (simp add: a read_model_snoc dict_append_distinct)
qed

lemma read_model_distinct_keys: "distinct (map fst (read_model m vars))"
proof (induction vars rule: rev_induct)
  case Nil
  then show ?case by simp
next
  case (snoc a vars)
  obtain e x where a: "a = (e, x)" by (cases a)
  show ?case using snoc by (simp add: a read_model_snoc dict_append_distinct_keys)
qed

lemma read_model_coloured:
  assumes "\<And>e x. (e, x) \<in> set vars \<Longrightarrow> m x = col e"
  shows "coloured col (read_model m vars)"
  using assms
proof (induction vars rule: rev_induct)
  case Nil
  then show ?case by simp
next
  case (snoc a vars)
  obtain e x where a: "a = (e, x)" by (cases a)
  have "coloured col (read_model m vars)" using snoc by auto
  moreover have "col e = m x" using snoc.prems [of e x] by (simp add: a)
  ultimately show ?case
    by (simp add: a read_model_snoc dict_append_coloured)
qed

lemma distinct_concat_tagged:
  assumes "distinct xs" "\<And>x. x \<in> set xs \<Longrightarrow> distinct (g x)"
    and "\<And>x y. x \<in> set xs \<Longrightarrow> y \<in> set (g x) \<Longrightarrow> tag y = x"
  shows "distinct (concat (map g xs))"
  using assms
proof (induction xs)
  case Nil
  then show ?case by simp
next
  case (Cons x xs)
  have "set (g x) \<inter> set (concat (map g xs)) = {}"
  proof (rule ccontr)
    assume "set (g x) \<inter> set (concat (map g xs)) \<noteq> {}"
    then obtain y x' where "y \<in> set (g x)" "x' \<in> set xs" "y \<in> set (g x')" by auto
    then have "tag y = x" "tag y = x'" using Cons.prems(3) by auto
    then show False using Cons.prems(1) \<open>x' \<in> set xs\<close> by auto
  qed
  then show ?case using Cons by auto
qed

lemma distinct_ec_vars: "distinct (map fst (ec_vars A))"
proof -
  have "map fst (ec_vars A) =
        concat (map (\<lambda>i. concat (map (\<lambda>j. if A ! i ! j = 1 then [(i, j)] else []) [0..<i])) [0..<length A])"
    by (simp add: ec_vars_def map_concat comp_def if_distrib [of "map fst"] cong: if_cong)
  also have "distinct \<dots>"
  proof (rule distinct_concat_tagged [where tag = fst])
    fix i
    show "distinct (concat (map (\<lambda>j. if A ! i ! j = 1 then [(i, j)] else []) [0..<i]))"
      by (rule distinct_concat_tagged [where tag = snd]) (auto split: if_splits)
  qed (auto split: if_splits)
  finally show ?thesis .
qed

lemma distinct_cz_gates: "distinct (map fst (cz_gates (sat_decls A)))"
proof -
  have "map fst (cz_gates (sat_decls A)) = map snd (filter fst (sat_decls A))"
    by (simp add: cz_gates_def comp_def case_prod_beta)
  moreover have "distinct (map snd (sat_decls A))"
  proof -
    have "map snd (sat_decls A) =
          concat (map (\<lambda>i. concat (map (\<lambda>j. [(i, j)]) [0..<i])) [0..<length A])"
      by (simp add: sat_decls_def map_concat comp_def)
    also have "distinct \<dots>"
    proof (rule distinct_concat_tagged [where tag = fst])
      fix i
      show "distinct (concat (map (\<lambda>j. [(i, j)]) [0..<i]))"
        by (rule distinct_concat_tagged [where tag = snd]) auto
    qed auto
    finally show ?thesis .
  qed
  ultimately show ?thesis by (simp add: distinct_map_filter)
qed

lemma ec_synthesis_out:
  assumes "simple_graph A" "sb \<Longrightarrow> A \<noteq> []"
  shows "ec_synthesis s A d sb = Inr (ec_out s A sb d)"
  by (simp add: ec_synthesis_def ec_constraints_simple [OF assms] ec_out_def split: option.splits)

lemma sat_synthesis_out:
  assumes "simple_graph A"
  shows "sat_synthesis s A d sb = Inr (sat_out s A sb d)"
  by (simp add: sat_synthesis_def sat_constraints_simple [OF assms] sat_out_def split: option.splits)

lemma ec_oracle_pure:
  assumes "simple_graph A" "sb \<Longrightarrow> A \<noteq> []" "ec_oracle s A sb"
  shows "solver_ok s (ec_pure A d sb)"
proof -
  have "case ec_constraints A d sb of Inl e \<Rightarrow> True | Inr (vars, cs) \<Rightarrow> solver_ok s cs"
    using assms(3) unfolding ec_oracle_def by (rule spec)
  then show ?thesis by (simp add: ec_constraints_simple [OF assms(1,2)])
qed

lemma sat_oracle_pure:
  assumes "simple_graph A" "sat_oracle s A sb"
  shows "solver_ok s (sat_pure A d sb)"
proof -
  have "case sat_constraints A d sb of Inl e \<Rightarrow> True | Inr (vars, cs) \<Rightarrow> solver_ok s cs"
    using assms(2) unfolding sat_oracle_def by (rule spec)
  then show ?thesis by (simp add: sat_constraints_simple [OF assms(1)])
qed

lemma sat_sat_iff:
  assumes sg: "simple_graph A"
  shows "satisfiable (sat_pure A d sb) \<longleftrightarrow> colourable A d"
proof
  assume "satisfiable (sat_pure A d sb)"
  then obtain m where "satisfies m (sat_pure A d sb)" by (auto simp: satisfiable_def)
  then have "proper A d (cz_colour m)" by (rule sat_pure_proper [OF sg])
  then show "colourable A d" unfolding colourable_def by blast
next
  assume "colourable A d"
  then obtain c where "proper A d c" by (auto simp: colourable_def)
  then have "satisfies (sat_model c d) (sat_pure A d sb)" by (rule proper_sat_pure [OF sg])
  then show "satisfiable (sat_pure A d sb)" unfolding satisfiable_def by blast
qed

lemma ec_vars_empty_iff: "ec_vars A = [] \<longleftrightarrow> edges A = {}"
proof -
  have "ec_vars A = [] \<longleftrightarrow> set (ec_vars A) = {}" by simp
  also have "\<dots> \<longleftrightarrow> edges A = {}" by (simp only: set_ec_vars image_is_empty)
  finally show ?thesis .
qed

lemma cz_gates_empty_iff: "cz_gates (sat_decls A) = [] \<longleftrightarrow> edges A = {}"
proof -
  have "cz_gates (sat_decls A) = [] \<longleftrightarrow> set (cz_gates (sat_decls A)) = {}" by simp
  also have "\<dots> \<longleftrightarrow> edges A = {}" by (simp only: set_cz_gates image_is_empty)
  finally show ?thesis .
qed

lemma ec_out_nonempty:
  assumes sg: "simple_graph A" and ne: "sb \<Longrightarrow> A \<noteq> []" and ok: "solver_ok s (ec_pure A d sb)"
  shows "ec_out s A sb d \<noteq> [] \<longleftrightarrow> colourable A d \<and> edges A \<noteq> {}"
proof (cases "s (ec_pure A d sb)")
  case None
  then have "\<not> colourable A d"
    using ok ec_sat_iff [OF sg ne, where d = d] by (simp add: solver_ok_def)
  then show ?thesis using None by (simp add: ec_out_def)
next
  case (Some m)
  then have "colourable A d"
    using ok ec_sat_iff [OF sg ne, where d = d] by (auto simp: solver_ok_def satisfiable_def)
  then show ?thesis using Some by (simp add: ec_out_def read_model_empty_iff ec_vars_empty_iff)
qed

lemma sat_out_nonempty:
  assumes sg: "simple_graph A" and ok: "solver_ok s (sat_pure A d sb)"
  shows "sat_out s A sb d \<noteq> [] \<longleftrightarrow> colourable A d \<and> edges A \<noteq> {}"
proof (cases "s (sat_pure A d sb)")
  case None
  then have "\<not> colourable A d"
    using ok sat_sat_iff [OF sg, where d = d and sb = sb] by (simp add: solver_ok_def)
  then show ?thesis using None by (simp add: sat_out_def)
next
  case (Some m)
  then have "colourable A d"
    using ok sat_sat_iff [OF sg, where d = d and sb = sb] by (auto simp: solver_ok_def satisfiable_def)
  then show ?thesis using Some by (simp add: sat_out_def read_model_empty_iff cz_gates_empty_iff)
qed

lemma ec_colour_vars: "(e, x) \<in> set (ec_vars A) \<Longrightarrow> m x = ec_colour m e"
  by (auto simp: set_ec_vars ec_colour_def)

lemma cz_colour_vars: "(e, x) \<in> set (cz_gates (sat_decls A)) \<Longrightarrow> m x = cz_colour m e"
  by (auto simp: set_cz_gates cz_colour_def)

lemma fst_set_ec_vars: "fst ` set (ec_vars A) = edges A"
  by (force simp: set_ec_vars)

lemma fst_set_cz_gates: "fst ` set (cz_gates (sat_decls A)) = edges A"
  by (force simp: set_cz_gates)

lemma ec_out_schedule:
  assumes sg: "simple_graph A" and ne: "sb \<Longrightarrow> A \<noteq> []" and ok: "solver_ok s (ec_pure A d sb)"
    and out: "ec_out s A sb d \<noteq> []"
  shows "schedule_of A d (ec_out s A sb d)"
proof -
  from out obtain m where m: "s (ec_pure A d sb) = Some m"
    by (auto simp: ec_out_def split: option.splits)
  then have "satisfies m (ec_pure A d sb)" using ok by (simp add: solver_ok_def)
  then have "proper A d (ec_colour m)"
    using ec_plain_sem [OF sg, of m d] by (simp add: ec_pure_def)
  moreover have "coloured (ec_colour m) (read_model m (ec_vars A))"
    by (rule read_model_coloured) (rule ec_colour_vars)
  moreover have "ec_out s A sb d = read_model m (ec_vars A)"
    using m by (simp add: ec_out_def)
  ultimately show ?thesis
    unfolding schedule_of_def
    by (intro exI [of _ "ec_colour m"])
      (simp add: read_model_distinct_keys read_model_distinct distinct_ec_vars
        read_model_set fst_set_ec_vars del: set_map)
qed

lemma sat_out_schedule:
  assumes sg: "simple_graph A" and ok: "solver_ok s (sat_pure A d sb)"
    and out: "sat_out s A sb d \<noteq> []"
  shows "schedule_of A d (sat_out s A sb d)"
proof -
  from out obtain m where m: "s (sat_pure A d sb) = Some m"
    by (auto simp: sat_out_def split: option.splits)
  then have "satisfies m (sat_pure A d sb)" using ok by (simp add: solver_ok_def)
  then have "proper A d (cz_colour m)"
    by (rule sat_pure_proper [OF sg])
  moreover have "coloured (cz_colour m) (read_model m (cz_gates (sat_decls A)))"
    by (rule read_model_coloured) (rule cz_colour_vars)
  moreover have "sat_out s A sb d = read_model m (cz_gates (sat_decls A))"
    using m by (simp add: sat_out_def)
  ultimately show ?thesis
    unfolding schedule_of_def
    by (intro exI [of _ "cz_colour m"])
      (simp add: read_model_distinct_keys read_model_distinct distinct_cz_gates
        read_model_set fst_set_cz_gates del: set_map)
qed

lemma threshold:
  fixes lo hi :: int
  assumes "lo \<le> hi" "P hi" "\<And>d d'. P d \<Longrightarrow> d \<le> d' \<Longrightarrow> P d'"
  shows "\<exists>D. lo \<le> D \<and> D \<le> hi \<and> P D \<and> (\<forall>d. lo \<le> d \<and> d < D \<longrightarrow> \<not> P d)"
proof -
  let ?S = "{d. lo \<le> d \<and> d \<le> hi \<and> P d}"
  have fin: "finite ?S" by (rule finite_subset [of _ "{lo..hi}"]) auto
  have ne: "?S \<noteq> {}" using assms(1,2) by auto
  have "Min ?S \<in> ?S" by (rule Min_in [OF fin ne])
  moreover have "\<not> P d" if "lo \<le> d" "d < Min ?S" for d
  proof
    assume "P d"
    then have "d \<in> ?S" using that \<open>Min ?S \<in> ?S\<close> by auto
    then have "Min ?S \<le> d" by (rule Min_le [OF fin])
    then show False using that by simp
  qed
  ultimately show ?thesis by blast
qed

lemma cz_edges_valid:
  "valid_edges (num_qubits c) es
   \<Longrightarrow> cz_edges c es = Inr (c\<lparr>data := data c @ cz_instructions es\<rparr>)"
  by (induction es arbitrary: c) (auto simp: valid_edges_def cz_instructions_def cz_def)

lemma cz_layers_valid:
  "valid_edges (num_qubits c) (layer_edges M)
   \<Longrightarrow> cz_layers c M = Inr (c\<lparr>data := data c @ cz_instructions (layer_edges M)\<rparr>)"
proof (induction M arbitrary: c)
  case Nil
  then show ?case by (simp add: cz_instructions_def)
next
  case (Cons a M)
  obtain l es where a: "a = (l, es)" by (cases a)
  have v: "valid_edges (num_qubits c) es" "valid_edges (num_qubits c) (layer_edges M)"
    using Cons.prems by (simp_all add: a valid_edges_def)
  show ?case
    using Cons.IH [of "c\<lparr>data := data c @ cz_instructions es\<rparr>"] v
    by (simp add: a cz_edges_valid cz_instructions_def)
qed

lemma materialize_valid:
  assumes "A \<noteq> []" "valid_edges (length A) (layer_edges M)"
  shows "map_synthesis_depth_optimal_mapping_to_qcircuit (Some M) A = Inr (circuit_of A M)"
  using assms
  by (simp add: map_synthesis_depth_optimal_mapping_to_qcircuit_def h_range_def Let_def
      cz_layers_valid circuit_of_def h_instructions_def)

lemma materialize_None:
  "map_synthesis_depth_optimal_mapping_to_qcircuit None A =
     Inl (if A = [] then CircuitError else AttributeError)"
  by (simp add: map_synthesis_depth_optimal_mapping_to_qcircuit_def h_range_def Let_def)

lemma schedule_valid_edges:
  assumes "schedule_of A d M"
  shows "valid_edges (length A) (layer_edges M)"
proof -
  have "set (layer_edges M) = edges A" using assms by (auto simp: schedule_of_def)
  then show ?thesis
    by (auto simp: valid_edges_def list_all_iff edges_def)
qed

lemma concatE_filter:
  assumes "\<And>x. x \<in> set xs \<Longrightarrow> f x = Inr (if P x then [x] else [])"
  shows "concatE f xs = Inr (filter P xs)"
  using assms by (induction xs) auto

lemma max_outgoing_simple:
  assumes sg: "simple_graph A"
  shows "max_outgoing_connections A =
         Inr (foldl max (- 1) (map (\<lambda>i. int (lower_degree A i)) [0..<length A]))"
proof -
  have inner: "concatE (\<lambda>j. bindE (cell A i j) (\<lambda>a. Inr (if a = 1 then [j] else []))) [0..<Suc i]
        = Inr (filter (\<lambda>j. A ! i ! j = 1) [0..<Suc i])" if "i < length A" for i
  proof -
    have "concatE (\<lambda>j. bindE (cell A i j) (\<lambda>a. Inr (if a = 1 then [j] else []))) [0..<Suc i]
        = Inr (filter (\<lambda>j. A ! i ! j = 1) [0..<Suc i])"
    proof (rule concatE_filter)
      fix j assume "j \<in> set [0..<Suc i]"
      then have "j < length A" using that by auto
      then show "bindE (cell A i j) (\<lambda>a. Inr (if a = 1 then [j] else [])) =
                 Inr (if A ! i ! j = 1 then [j] else [])"
        using that by (simp add: cell_simple [OF sg])
    qed
    then show ?thesis by (simp del: upt_Suc)
  qed
  have "concatE (\<lambda>i.
              bindE (concatE (\<lambda>j. bindE (cell A i j) (\<lambda>a. Inr (if a = 1 then [j] else [])))
                       [0..<i + 1]) (\<lambda>hits. Inr [int (length hits)]))
            [0..<length A] =
        Inr (concat (map (\<lambda>i. [int (lower_degree A i)]) [0..<length A]))"
    by (rule concatE_Inr) (simp add: inner lower_degree_def del: upt_Suc)
  then show ?thesis
    by (simp add: max_outgoing_connections_def map_concat comp_def)
qed

lemma foldl_max_ge: "(a::int) \<le> foldl max a xs"
  by (induction xs arbitrary: a) (auto intro: order_trans [OF max.cobounded1])

lemma foldl_max_le: "(a::int) \<le> b \<Longrightarrow> (\<And>x. x \<in> set xs \<Longrightarrow> x \<le> b) \<Longrightarrow> foldl max a xs \<le> b"
  by (induction xs arbitrary: a) auto

lemma foldl_max_upper: "x \<in> set xs \<Longrightarrow> (x::int) \<le> foldl max a xs"
proof (induction xs arbitrary: a)
  case Nil
  then show ?case by simp
next
  case (Cons y ys)
  show ?case
  proof (cases "x = y")
    case True
    have "x \<le> max a y" using True by simp
    also have "\<dots> \<le> foldl max (max a y) ys" by (rule foldl_max_ge)
    finally show ?thesis by simp
  next
    case False
    then show ?thesis using Cons by simp
  qed
qed

lemma foldl_max_mem: "foldl max a xs = (a::int) \<or> foldl max a xs \<in> set xs"
proof (induction xs arbitrary: a)
  case Nil
  then show ?case by simp
next
  case (Cons y ys)
  show ?case using Cons [of "max a y"] by (auto simp: max_def split: if_splits)
qed

lemma lower_degree_le: "lower_degree A i \<le> Suc i"
  unfolding lower_degree_def by (rule order_trans [OF length_filter_le]) simp

lemma max_outgoing_le:
  assumes "max_outgoing_connections A = Inr lo" "simple_graph A"
  shows "lo \<le> int (length A)" "- 1 \<le> lo"
proof -
  have lo: "lo = foldl max (- 1) (map (\<lambda>i. int (lower_degree A i)) [0..<length A])"
    using assms max_outgoing_simple by simp
  show "- 1 \<le> lo" unfolding lo by (rule foldl_max_ge)
  show "lo \<le> int (length A)"
    unfolding lo
  proof (rule foldl_max_le)
    fix x assume "x \<in> set (map (\<lambda>i. int (lower_degree A i)) [0..<length A])"
    then obtain i where "i < length A" "x = int (lower_degree A i)" by auto
    then show "x \<le> int (length A)" using lower_degree_le [of A i] by simp
  qed simp
qed

lemma search_generic:
  assumes tot: "\<And>d. synth d = Inr (f d)" and le: "lo \<le> hi" and top: "f hi \<noteq> []"
    and mono: "\<And>d d'. f d \<noteq> [] \<Longrightarrow> d \<le> d' \<Longrightarrow> f d' \<noteq> []"
  shows "\<exists>D. lo \<le> D \<and> D \<le> hi \<and> f D \<noteq> [] \<and> (\<forall>d. lo \<le> d \<and> d < D \<longrightarrow> f d = []) \<and>
     linear_run synth lo hi =
       Inr \<lparr>ls_depth = D, ls_solver_calls = nat (D - lo + 1), ls_mapping = Some (f D),
            ls_probed = [lo..D]\<rparr> \<and>
     (\<exists>calls. binary_run synth lo hi = Some (Inr (f D, D, calls)))"
proof -
  obtain D where D: "lo \<le> D" "D \<le> hi" "f D \<noteq> []" "\<forall>d. lo \<le> d \<and> d < D \<longrightarrow> \<not> f d \<noteq> []"
    using threshold [of lo hi "\<lambda>d. f d \<noteq> []"] le top mono by blast
  have lin: "linear_run synth lo hi =
       Inr \<lparr>ls_depth = D, ls_solver_calls = nat (D - lo + 1), ls_mapping = Some (f D),
            ls_probed = [lo..D]\<rparr>"
    unfolding linear_run_def
    by (subst linear_loop_finds [where D = D and M = "f D"]) (use D tot in auto)
  have "\<exists>calls. binary_loop synth
       \<lparr>left_bound_depth = lo, right_bound_depth = hi, bs_solver_calls = 0,
        mappings_at_depth = Map.empty\<rparr> = Some (Inr (f D, D, calls))"
  proof (rule binary_loop_finds [where lo = lo and hi = hi and f = f])
    show "\<And>d. D \<le> d \<Longrightarrow> d \<le> hi \<Longrightarrow> f d \<noteq> []" using mono D(3) by blast
  qed (use D tot in \<open>auto simp: cache_ok_def\<close>)
  then have "\<exists>calls. binary_run synth lo hi = Some (Inr (f D, D, calls))"
    by (simp add: binary_run_def)
  with D lin show ?thesis by blast
qed

lemma foldr_max_le: "(\<And>x. x \<in> set xs \<Longrightarrow> x \<le> d) \<Longrightarrow> foldr max xs (0::nat) \<le> d"
  by (induction xs) auto

lemma proper_positive:
  assumes "proper A d c" "edges A \<noteq> {}"
  shows "0 < d"
  using assms by (fastforce simp: proper_def)

lemma degree_le:
  assumes sg: "simple_graph A" and p: "proper A d c" and v: "v < length A"
    and e: "edges A \<noteq> {}"
  shows "int (degree A v) \<le> d"
proof -
  define nb where "nb = ones (enumerate 0 (A ! v))"
  have len: "length (A ! v) = length A" using sg v by (simp add: simple_graph_def)
  have in_nb: "star_edge v i \<in> edges A \<and> i \<noteq> v" if "i \<in> set nb" for i
    using ones_enumerateD [of i "A ! v"] that star_edge_in [OF sg v, of i] len
    by (auto simp: nb_def)
  have "\<exists>c'. proper A d c' \<and> (\<forall>t<length nb. c' (star_edge v (nb ! t)) = int t)"
  proof (rule star_relabel [OF _ _ _ p])
    show "distinct nb" by (simp add: nb_def distinct_ones_enumerate)
    show "v \<notin> set nb" using in_nb by auto
    show "\<And>i. i \<in> set nb \<Longrightarrow> star_edge v i \<in> edges A" using in_nb by auto
  qed
  then obtain c' where c': "proper A d c'"
    and fx: "\<And>t. t < length nb \<Longrightarrow> c' (star_edge v (nb ! t)) = int t" by blast
  have deg: "degree A v = length nb"
    by (simp add: degree_def nb_def length_ones_enumerate)
  show ?thesis
  proof (cases "nb = []")
    case True
    then show ?thesis using proper_positive [OF p e] by (simp add: deg)
  next
    case False
    then have t: "length nb - 1 < length nb" by simp
    then have "nb ! (length nb - 1) \<in> set nb" by simp
    then have "star_edge v (nb ! (length nb - 1)) \<in> edges A" using in_nb by blast
    then have "c' (star_edge v (nb ! (length nb - 1))) < d"
      using c' by (auto simp: proper_def)
    then have "int (length nb - 1) < d" using fx [OF t] by simp
    then show ?thesis using False by (simp add: deg)
  qed
qed

lemma max_degree_le:
  assumes "simple_graph A" "proper A d c" "edges A \<noteq> {}"
  shows "int (max_degree A) \<le> d"
proof -
  have "0 \<le> d" using proper_positive [OF assms(2,3)] by simp
  moreover have "max_degree A \<le> nat d"
    unfolding max_degree_def
  proof (rule foldr_max_le)
    fix x assume "x \<in> set (map (degree A) [0..<length A])"
    then obtain v where "v < length A" "x = degree A v" by auto
    then show "x \<le> nat d" using degree_le [OF assms(1,2) _ assms(3), of v] by linarith
  qed
  ultimately show ?thesis by linarith
qed

lemma edges_nonempty_matrix: "edges A \<noteq> {} \<Longrightarrow> A \<noteq> []"
  by (auto simp: edges_def)

lemma ec_search:
  assumes sg: "simple_graph A" and e: "edges A \<noteq> {}" and orc: "ec_oracle s A sb"
  shows "\<exists>lo D. max_outgoing_connections A = Inr lo \<and> lo \<le> D \<and> D \<le> int (length A)
     \<and> ec_out s A sb D \<noteq> [] \<and> (\<forall>d. lo \<le> d \<and> d < D \<longrightarrow> ec_out s A sb d = []) \<and>
     ec_linear_run s A sb =
       Inr \<lparr>ls_depth = D, ls_solver_calls = nat (D - lo + 1), ls_mapping = Some (ec_out s A sb D),
            ls_probed = [lo..D]\<rparr> \<and>
     (\<exists>calls. binary_run (\<lambda>d. ec_synthesis s A d sb) lo (int (length A))
          = Some (Inr (ec_out s A sb D, D, calls)))"
proof -
  have ne: "A \<noteq> []" using e by (rule edges_nonempty_matrix)
  obtain lo where lo: "max_outgoing_connections A = Inr lo"
    using max_outgoing_simple [OF sg] by blast
  have ok: "solver_ok s (ec_pure A d sb)" for d
    by (rule ec_oracle_pure [OF sg ne orc])
  have P: "ec_out s A sb d \<noteq> [] \<longleftrightarrow> colourable A d" for d
    using ec_out_nonempty [OF sg ne ok] e by simp
  have "\<exists>D. lo \<le> D \<and> D \<le> int (length A) \<and> ec_out s A sb D \<noteq> [] \<and>
     (\<forall>d. lo \<le> d \<and> d < D \<longrightarrow> ec_out s A sb d = []) \<and>
     linear_run (\<lambda>d. ec_synthesis s A d sb) lo (int (length A)) =
       Inr \<lparr>ls_depth = D, ls_solver_calls = nat (D - lo + 1), ls_mapping = Some (ec_out s A sb D),
            ls_probed = [lo..D]\<rparr> \<and>
     (\<exists>calls. binary_run (\<lambda>d. ec_synthesis s A d sb) lo (int (length A))
         = Some (Inr (ec_out s A sb D, D, calls)))"
  proof (rule search_generic)
    show "\<And>d. ec_synthesis s A d sb = Inr (ec_out s A sb d)"
      by (rule ec_synthesis_out [OF sg ne])
    show "lo \<le> int (length A)" by (rule max_outgoing_le [OF lo sg])
    show "ec_out s A sb (int (length A)) \<noteq> []" by (simp add: P colourable_nodes)
    show "\<And>d d'. ec_out s A sb d \<noteq> [] \<Longrightarrow> d \<le> d' \<Longrightarrow> ec_out s A sb d' \<noteq> []"
      unfolding P by (rule colourable_mono)
  qed
  then show ?thesis
    using lo by (auto simp: ec_linear_run_def)
qed

lemma sat_search:
  assumes sg: "simple_graph A" and e: "edges A \<noteq> {}" and orc: "sat_oracle s A sb"
  shows "\<exists>D. 0 \<le> D \<and> D \<le> int (length A)
     \<and> sat_out s A sb D \<noteq> [] \<and> (\<forall>d. 0 \<le> d \<and> d < D \<longrightarrow> sat_out s A sb d = []) \<and>
     sat_linear_run s A sb =
       Inr \<lparr>ls_depth = D, ls_solver_calls = nat (D - 0 + 1), ls_mapping = Some (sat_out s A sb D),
            ls_probed = [0..D]\<rparr> \<and>
     (\<exists>calls. binary_run (\<lambda>d. sat_synthesis s A d sb) 0 (int (length A))
          = Some (Inr (sat_out s A sb D, D, calls)))"
proof -
  have ok: "solver_ok s (sat_pure A d sb)" for d
    by (rule sat_oracle_pure [OF sg orc])
  have P: "sat_out s A sb d \<noteq> [] \<longleftrightarrow> colourable A d" for d
    using sat_out_nonempty [OF sg ok] e by simp
  show ?thesis
    unfolding sat_linear_run_def
  proof (rule search_generic)
    show "\<And>d. sat_synthesis s A d sb = Inr (sat_out s A sb d)"
      by (rule sat_synthesis_out [OF sg])
    show "0 \<le> int (length A)" by simp
    show "sat_out s A sb (int (length A)) \<noteq> []" by (simp add: P colourable_nodes)
    show "\<And>d d'. sat_out s A sb d \<noteq> [] \<Longrightarrow> d \<le> d' \<Longrightarrow> sat_out s A sb d' \<noteq> []"
      unfolding P by (rule colourable_mono)
  qed
qed

section \<open>Lemmas: what the searches return\<close>

lemma in_layer_edges: "in_layer M l e \<Longrightarrow> e \<in> set (layer_edges M)"
  by (force simp: in_layer_def layer_edges_def)

lemma edges_in_layer: "e \<in> set (layer_edges M) \<Longrightarrow> \<exists>l. in_layer M l e"
  by (fastforce simp: in_layer_def layer_edges_def)

lemma coloured_in_layer: "coloured c M \<Longrightarrow> in_layer M l e \<Longrightarrow> c e = l"
  by (auto simp: coloured_def in_layer_def)

lemma schedule_valid:
  assumes "schedule_of A d M"
  shows "valid_schedule A M"
proof -
  from assms obtain c where c: "proper A d c" "coloured c M" "distinct (map fst M)"
      "distinct (layer_edges M)" "set (layer_edges M) = edges A"
    unfolding schedule_of_def by blast
  have one: "\<exists>!l. in_layer M l e" if "e \<in> edges A" for e
  proof -
    have "\<exists>l. in_layer M l e" using that c(5) edges_in_layer by simp
    moreover have "l = l'" if "in_layer M l e" "in_layer M l' e" for l l'
      using coloured_in_layer [OF c(2)] that by metis
    ultimately show ?thesis by blast
  qed
  have ind: "\<not> adjacent e f" if "p \<in> set M" "e \<in> set (snd p)" "f \<in> set (snd p)" for p e f
  proof
    assume adj: "adjacent e f"
    have l: "in_layer M (fst p) e" "in_layer M (fst p) f"
      using that by (auto simp: in_layer_def intro!: exI [of _ "snd p"])
    then have "e \<in> edges A" "f \<in> edges A"
      using in_layer_edges [of M "fst p" e] in_layer_edges [of M "fst p" f] c(5) by simp_all
    then have "c e \<noteq> c f" using c(1) adj by (auto simp: proper_def)
    then show False using coloured_in_layer [OF c(2)] l by metis
  qed
  show ?thesis
    unfolding valid_schedule_def using one ind c(3-5) by blast
qed

lemma not_all_zero:
  assumes "simple_graph A" "edges A \<noteq> {}"
  shows "\<not> all_zero A"
proof -
  from assms(2) obtain i j where ij: "j < i" "i < length A" and one: "A ! i ! j = 1"
    by (auto simp: edges_def)
  have "j < length (A ! i)" using ij assms(1) by (simp add: simple_graph_def)
  then have "A ! i ! j \<in> set (A ! i)" by (rule nth_mem)
  then have "(1::int) \<in> set (A ! i)" by (simp only: one)
  then have "\<not> list_all (\<lambda>cell. cell = 0) (A ! i)"
    unfolding list_all_iff by (intro notI) (drule bspec, assumption, simp)
  moreover have "A ! i \<in> set A" using ij by simp
  ultimately show ?thesis unfolding all_zero_def list_all_iff by blast
qed

lemma ec_searches:
  assumes sg: "simple_graph A" and e: "edges A \<noteq> {}" and orc: "ec_oracle s A sb"
  shows "\<exists>lo D calls. max_outgoing_connections A = Inr lo \<and> lo \<le> D \<and> D \<le> int (length A)
     \<and> ec_synthesis s A D sb = Inr (ec_out s A sb D) \<and> ec_out s A sb D \<noteq> []
     \<and> schedule_of A D (ec_out s A sb D)
     \<and> (\<forall>d. lo \<le> d \<and> d < D \<longrightarrow> ec_synthesis s A d sb = Inr [])
     \<and> ec_linear_run s A sb =
         Inr \<lparr>ls_depth = D, ls_solver_calls = nat (D - lo + 1),
              ls_mapping = Some (ec_out s A sb D), ls_probed = [lo..D]\<rparr>
     \<and> ec_linear_search s A sb = Inr (circuit_of A (ec_out s A sb D), D, nat (D - lo + 1))
     \<and> ec_binary_search s A sb = Some (Inr (circuit_of A (ec_out s A sb D), D, calls))
     \<and> binary_run (\<lambda>d. ec_synthesis s A d sb) lo (int (length A))
          = Some (Inr (ec_out s A sb D, D, calls))"
proof -
  have ne: "A \<noteq> []" using e by (rule edges_nonempty_matrix)
  obtain lo D calls where s: "max_outgoing_connections A = Inr lo" "lo \<le> D" "D \<le> int (length A)"
      "ec_out s A sb D \<noteq> []" "\<forall>d. lo \<le> d \<and> d < D \<longrightarrow> ec_out s A sb d = []"
      "ec_linear_run s A sb =
         Inr \<lparr>ls_depth = D, ls_solver_calls = nat (D - lo + 1),
              ls_mapping = Some (ec_out s A sb D), ls_probed = [lo..D]\<rparr>"
      "binary_run (\<lambda>d. ec_synthesis s A d sb) lo (int (length A))
          = Some (Inr (ec_out s A sb D, D, calls))"
    using ec_search [OF sg e orc] by blast
  have out: "ec_synthesis s A d sb = Inr (ec_out s A sb d)" for d
    by (rule ec_synthesis_out [OF sg ne])
  have sch: "schedule_of A D (ec_out s A sb D)"
    by (rule ec_out_schedule [OF sg ne ec_oracle_pure [OF sg ne orc] s(4)])
  have mat: "map_synthesis_depth_optimal_mapping_to_qcircuit (Some (ec_out s A sb D)) A
             = Inr (circuit_of A (ec_out s A sb D))"
    by (rule materialize_valid [OF ne schedule_valid_edges [OF sch]])
  have lin: "ec_linear_search s A sb = Inr (circuit_of A (ec_out s A sb D), D, nat (D - lo + 1))"
    by (simp add: ec_linear_search_def s(6) linear_result_def mat)
  have bin: "ec_binary_search s A sb = Some (Inr (circuit_of A (ec_out s A sb D), D, calls))"
    by (simp add: ec_binary_search_def s(1) s(7) binary_result_def mat)
  have below: "\<forall>d. lo \<le> d \<and> d < D \<longrightarrow> ec_synthesis s A d sb = Inr []"
    using s(5) by (simp add: out)
  show ?thesis
    by (intro exI [of _ lo] exI [of _ D] exI [of _ calls] conjI)
      (rule s(1) s(2) s(3) out s(4) sch below s(6) lin bin s(7))+
qed

lemma sat_searches:
  assumes sg: "simple_graph A" and e: "edges A \<noteq> {}" and orc: "sat_oracle s A sb"
  shows "\<exists>D calls. 0 \<le> D \<and> D \<le> int (length A)
     \<and> sat_synthesis s A D sb = Inr (sat_out s A sb D) \<and> sat_out s A sb D \<noteq> []
     \<and> schedule_of A D (sat_out s A sb D)
     \<and> (\<forall>d. 0 \<le> d \<and> d < D \<longrightarrow> sat_synthesis s A d sb = Inr [])
     \<and> sat_linear_run s A sb =
         Inr \<lparr>ls_depth = D, ls_solver_calls = nat (D + 1),
              ls_mapping = Some (sat_out s A sb D), ls_probed = [0..D]\<rparr>
     \<and> sat_linear_search s A sb = Inr (circuit_of A (sat_out s A sb D), D, nat (D + 1))
     \<and> sat_binary_search s A sb = Some (Inr (circuit_of A (sat_out s A sb D), D, calls))
     \<and> binary_run (\<lambda>d. sat_synthesis s A d sb) 0 (int (length A))
          = Some (Inr (sat_out s A sb D, D, calls))"
proof -
  have ne: "A \<noteq> []" using e by (rule edges_nonempty_matrix)
  obtain D calls where s: "0 \<le> D" "D \<le> int (length A)"
      "sat_out s A sb D \<noteq> []" "\<forall>d. 0 \<le> d \<and> d < D \<longrightarrow> sat_out s A sb d = []"
      "sat_linear_run s A sb =
         Inr \<lparr>ls_depth = D, ls_solver_calls = nat (D - 0 + 1),
              ls_mapping = Some (sat_out s A sb D), ls_probed = [0..D]\<rparr>"
      "binary_run (\<lambda>d. sat_synthesis s A d sb) 0 (int (length A))
          = Some (Inr (sat_out s A sb D, D, calls))"
    using sat_search [OF sg e orc] by blast
  have out: "sat_synthesis s A d sb = Inr (sat_out s A sb d)" for d
    by (rule sat_synthesis_out [OF sg])
  have sch: "schedule_of A D (sat_out s A sb D)"
    by (rule sat_out_schedule [OF sg sat_oracle_pure [OF sg orc] s(3)])
  have mat: "map_synthesis_depth_optimal_mapping_to_qcircuit (Some (sat_out s A sb D)) A
             = Inr (circuit_of A (sat_out s A sb D))"
    by (rule materialize_valid [OF ne schedule_valid_edges [OF sch]])
  have lin: "sat_linear_search s A sb = Inr (circuit_of A (sat_out s A sb D), D, nat (D + 1))"
    by (simp add: sat_linear_search_def s(5) linear_result_def mat)
  have bin: "sat_binary_search s A sb = Some (Inr (circuit_of A (sat_out s A sb D), D, calls))"
    by (simp add: sat_binary_search_def s(6) binary_result_def mat)
  have below: "\<forall>d. 0 \<le> d \<and> d < D \<longrightarrow> sat_synthesis s A d sb = Inr []"
    using s(4) by (simp add: out)
  have run: "sat_linear_run s A sb =
         Inr \<lparr>ls_depth = D, ls_solver_calls = nat (D + 1),
              ls_mapping = Some (sat_out s A sb D), ls_probed = [0..D]\<rparr>"
    using s(5) by simp
  show ?thesis
    by (intro exI [of _ D] exI [of _ calls] conjI)
      (rule s(1) s(2) out s(3) sch below run lin bin s(6))+
qed

lemma schedule_depth:
  assumes "simple_graph A" "edges A \<noteq> {}" "schedule_of A d M"
  shows "int (max_degree A) \<le> d"
  using assms max_degree_le unfolding schedule_of_def by blast

section \<open>Lemmas: concrete graphs and solvers\<close>

lemma try_models_ok:
  assumes "satisfiable cs \<Longrightarrow> \<exists>m\<in>set ms. satisfies m cs"
  shows "solver_ok (try_models ms) cs"
proof (cases "find (\<lambda>m. satisfies m cs) ms")
  case None
  then have "\<not> (\<exists>m\<in>set ms. satisfies m cs)" by (simp add: find_None_iff)
  then show ?thesis using assms None by (auto simp: solver_ok_def try_models_def)
next
  case (Some m)
  then have "satisfies m cs" by (auto simp: find_Some_iff)
  then show ?thesis using Some by (simp add: solver_ok_def try_models_def)
qed

lemma ec_oracle_try:
  assumes sg: "simple_graph A" and ne: "A \<noteq> []"
    and m: "\<And>d. colourable A d \<Longrightarrow> satisfies m (ec_pure A d sb)"
  shows "ec_oracle (try_models [m]) A sb"
  unfolding ec_oracle_def
proof
  fix d
  have "solver_ok (try_models [m]) (ec_pure A d sb)"
    by (rule try_models_ok) (use m ec_sat_iff [OF sg ne, where d = d and sb = sb] in simp)
  then show "case ec_constraints A d sb of Inl e \<Rightarrow> True
             | Inr (vars, cs) \<Rightarrow> solver_ok (try_models [m]) cs"
    by (simp add: ec_constraints_simple [OF sg ne])
qed

lemma sat_oracle_try:
  assumes sg: "simple_graph A"
    and m: "\<And>d. colourable A d \<Longrightarrow> satisfies m (sat_pure A d sb)"
  shows "sat_oracle (try_models [m]) A sb"
  unfolding sat_oracle_def
proof
  fix d
  have "solver_ok (try_models [m]) (sat_pure A d sb)"
    by (rule try_models_ok) (use m sat_sat_iff [OF sg, where d = d and sb = sb] in simp)
  then show "case sat_constraints A d sb of Inl e \<Rightarrow> True
             | Inr (vars, cs) \<Rightarrow> solver_ok (try_models [m]) cs"
    by (simp add: sat_constraints_simple [OF sg])
qed

lemma simple_pair_graph: "simple_graph pair_graph"
  by (simp add: simple_graph_def pair_graph_def less_Suc_eq numeral_2_eq_2)

lemma edges_pair_graph: "edges pair_graph = {(1, 0)}"
  by (auto simp: edges_def pair_graph_def less_Suc_eq numeral_2_eq_2)

lemma ec_pure_pair:
  "ec_pure pair_graph d sb =
     [GeC (EdgeVar 1 0) 0, LtC (EdgeVar 1 0) d] @ (if sb then [EqC (EdgeVar 1 0) 0] else [])"
  by (simp add: ec_pure_def ec_bounds_def ec_vars_def ec_conflicts_pure_def ec_star_def
      max_row_def star_edge_def pair_graph_def numeral_2_eq_2)

lemma sat_pure_pair:
  "sat_pure pair_graph d sb = [GeC (CzVar 1 0) 0, LtC (CzVar 1 0) d]"
  by (simp add: sat_pure_def sat_bounds_def sat_decls_def sat_conflicts_pure_def
      sat_symmetry_pure_def pair_graph_def numeral_2_eq_2)

lemma colourable_pair: "colourable pair_graph d \<longleftrightarrow> 0 < d"
proof
  assume "colourable pair_graph d"
  then show "0 < d"
    unfolding colourable_def using proper_positive [of pair_graph d] edges_pair_graph by auto
next
  assume "0 < d"
  then have "proper pair_graph d (\<lambda>e. 0)"
    by (simp add: proper_def edges_pair_graph adjacent_def)
  then show "colourable pair_graph d" unfolding colourable_def by blast
qed

lemma ec_oracle_pair: "ec_oracle (try_models [zero_model]) pair_graph sb"
  by (rule ec_oracle_try [OF simple_pair_graph])
    (simp_all add: pair_graph_def [symmetric] ec_pure_pair colourable_pair zero_model_def,
     simp add: pair_graph_def)

lemma sat_oracle_pair: "sat_oracle (try_models [zero_model]) pair_graph sb"
  by (rule sat_oracle_try [OF simple_pair_graph])
    (simp add: sat_pure_pair colourable_pair zero_model_def)

lemma ec_satisfiable_iff:
  assumes "simple_graph A" "sb \<Longrightarrow> A \<noteq> []"
  shows "ec_satisfiable A d sb \<longleftrightarrow> colourable A d"
  by (simp add: ec_satisfiable_def ec_constraints_simple [OF assms] ec_sat_iff [OF assms])

lemma sat_satisfiable_iff:
  assumes "simple_graph A"
  shows "sat_satisfiable A d sb \<longleftrightarrow> colourable A d"
  by (simp add: sat_satisfiable_def sat_constraints_simple [OF assms] sat_sat_iff [OF assms])

lemma ec_nonempty_iff:
  assumes "simple_graph A" "sb \<Longrightarrow> A \<noteq> []" "ec_oracle s A sb"
  shows "nonempty_result (ec_synthesis s A d sb) \<longleftrightarrow> colourable A d \<and> edges A \<noteq> {}"
  using ec_out_nonempty [OF assms(1,2) ec_oracle_pure [OF assms], of d]
  by (simp add: nonempty_result_def ec_synthesis_out [OF assms(1,2)])

lemma sat_nonempty_iff:
  assumes "simple_graph A" "sat_oracle s A sb"
  shows "nonempty_result (sat_synthesis s A d sb) \<longleftrightarrow> colourable A d \<and> edges A \<noteq> {}"
  using sat_out_nonempty [OF assms(1) sat_oracle_pure [OF assms], of d]
  by (simp add: nonempty_result_def sat_synthesis_out [OF assms(1)])

lemma ec_synthesis_no_nodes: "\<not> nonempty_result (ec_synthesis s [] d sb)"
proof (cases sb)
  case True
  then show ?thesis
    by (simp add: nonempty_result_def ec_synthesis_def ec_constraints_empty_sb)
next
  case False
  then have "ec_constraints [] d sb = Inr ([], [])"
    by (simp add: ec_constraints_def ec_declare_def ec_conflicts_def ec_bounds_def)
  then show ?thesis
    by (simp add: nonempty_result_def ec_synthesis_def split: option.splits)
qed

lemma ec_unsatisfiable_no_nodes: "\<not> ec_satisfiable [] d True"
  by (simp add: ec_satisfiable_def ec_constraints_empty_sb)

lemma lower_degree_le_degree:
  assumes "i < length A" "length (A ! i) = length A"
  shows "lower_degree A i \<le> degree A i"
proof -
  have "filter (\<lambda>x. x = 1) (A ! i) = filter (\<lambda>x. x = 1) (map (nth (A ! i)) [0..<length (A ! i)])"
    by (simp only: map_nth)
  also have "\<dots> = map (nth (A ! i)) (filter (\<lambda>j. A ! i ! j = 1) [0..<length A])"
    by (simp add: filter_map comp_def assms(2))
  finally have "degree A i = length (filter (\<lambda>j. A ! i ! j = 1) [0..<length A])"
    by (simp add: degree_def)
  moreover have "[0..<length A] = [0..<Suc i] @ [Suc i..<length A]"
  proof -
    obtain k where k: "length A = Suc i + k"
      using assms(1) less_imp_Suc_add by fastforce
    have "[0..<Suc i + k] = [0..<Suc i] @ [Suc i..<Suc i + k]"
      by (rule upt_add_eq_append) simp
    then show ?thesis by (simp only: k)
  qed
  ultimately have "degree A i = lower_degree A i
      + length (filter (\<lambda>j. A ! i ! j = 1) [Suc i..<length A])"
    by (simp add: lower_degree_def del: upt_Suc)
  then show ?thesis by simp
qed

lemma foldr_max_upper: "x \<in> set xs \<Longrightarrow> (x::nat) \<le> foldr max xs 0"
  by (induction xs) auto

lemma degree_le_max: "i < length A \<Longrightarrow> degree A i \<le> max_degree A"
  unfolding max_degree_def by (rule foldr_max_upper) simp

lemma max_outgoing_le_degree:
  assumes "max_outgoing_connections A = Inr lo" "simple_graph A"
  shows "lo \<le> int (max_degree A)"
proof -
  have lo: "lo = foldl max (- 1) (map (\<lambda>i. int (lower_degree A i)) [0..<length A])"
    using assms max_outgoing_simple by simp
  show ?thesis
    unfolding lo
  proof (rule foldl_max_le)
    fix x assume "x \<in> set (map (\<lambda>i. int (lower_degree A i)) [0..<length A])"
    then obtain i where i: "i < length A" "x = int (lower_degree A i)" by auto
    then have "length (A ! i) = length A" using assms(2) by (simp add: simple_graph_def)
    then show "x \<le> int (max_degree A)"
      using lower_degree_le_degree [OF i(1)] degree_le_max [OF i(1)] i(2) by simp
  qed simp
qed

lemma colourable_degree:
  assumes "simple_graph A" "edges A \<noteq> {}" "colourable A d"
  shows "int (max_degree A) \<le> d"
  using assms max_degree_le unfolding colourable_def by blast

lemma ec_minimal:
  assumes sg: "simple_graph A" and e: "edges A \<noteq> {}" and orc: "ec_oracle s A sb"
    and lo: "max_outgoing_connections A = Inr lo"
    and below: "\<forall>d. lo \<le> d \<and> d < D \<longrightarrow> ec_synthesis s A d sb = Inr []"
    and d: "d < D"
  shows "\<not> nonempty_result (ec_synthesis s A d sb)"
proof (cases "lo \<le> d")
  case True
  then show ?thesis using below d by (simp add: nonempty_result_def)
next
  case False
  have ne: "A \<noteq> []" using e by (rule edges_nonempty_matrix)
  have "\<not> colourable A d"
    using colourable_degree [OF sg e, of d] max_outgoing_le_degree [OF lo sg] False by auto
  then show ?thesis by (simp add: ec_nonempty_iff [OF sg ne orc])
qed

lemma sat_minimal:
  assumes sg: "simple_graph A" and e: "edges A \<noteq> {}" and orc: "sat_oracle s A sb"
    and below: "\<forall>d. 0 \<le> d \<and> d < D \<longrightarrow> sat_synthesis s A d sb = Inr []"
    and d: "d < D"
  shows "\<not> nonempty_result (sat_synthesis s A d sb)"
proof (cases "0 \<le> d")
  case True
  then show ?thesis using below d by (simp add: nonempty_result_def)
next
  case False
  have "\<not> colourable A d"
    using proper_positive [of A d] e False unfolding colourable_def by fastforce
  then show ?thesis by (simp add: sat_nonempty_iff [OF sg orc])
qed

lemma binary_run_at_left:
  assumes "(lo + hi) div 2 = lo" "synth lo = Inr M" "M \<noteq> []"
  shows "binary_run synth lo hi = Some (Inr (M, lo, 1))"
  unfolding binary_run_def
  by (subst binary_loop.simps)
    (simp add: binary_step_def assms probe_def cached_def Let_def)

lemma binary_run_above_left:
  assumes "(lo + hi) div 2 = lo + 1" "synth (lo + 1) = Inr M" "M \<noteq> []" "synth lo = Inr []"
  shows "binary_run synth lo hi = Some (Inr (M, lo + 1, 2))"
  unfolding binary_run_def
  by (subst binary_loop.simps)
    (simp add: binary_step_def assms probe_def cached_def Let_def)

lemma linear_run_first:
  assumes "synth lo = Inr M" "M \<noteq> []" "lo \<le> hi"
  shows "linear_run synth lo hi =
         Inr \<lparr>ls_depth = lo, ls_solver_calls = 1, ls_mapping = Some M, ls_probed = [lo]\<rparr>"
  unfolding linear_run_def
  by (subst linear_loop_finds [where D = lo and M = M]) (use assms in simp_all)

lemma linear_run_second:
  assumes "synth lo = Inr []" "synth (lo + 1) = Inr M" "M \<noteq> []" "lo + 1 \<le> hi"
  shows "linear_run synth lo hi =
         Inr \<lparr>ls_depth = lo + 1, ls_solver_calls = 2, ls_mapping = Some M,
              ls_probed = [lo, lo + 1]\<rparr>"
proof -
  have "[lo..lo + 1] = [lo, lo + 1]" by (simp add: upto_rec1)
  moreover have "\<And>d. lo \<le> d \<Longrightarrow> d < lo + 1 \<Longrightarrow> synth d = Inr []"
    using assms(1) by (metis zle_add1_eq_le order_antisym)
  ultimately show ?thesis
    unfolding linear_run_def
    by (subst linear_loop_finds [where D = "lo + 1" and M = M]) (use assms in simp_all)
qed

lemma length_pair_graph: "int (length pair_graph) = 2"
  by (simp add: pair_graph_def)

lemma count_gates_circuit_of:
  "count_single_qubit_gates (circuit_of A M) = length A"
  "count_two_qubit_gates (circuit_of A M) = length (layer_edges M)"
  by (simp_all add: count_single_qubit_gates_def count_two_qubit_gates_def circuit_of_def
      h_instructions_def cz_instructions_def filter_map comp_def)

lemma schedule_length:
  assumes "schedule_of A d M"
  shows "length (layer_edges M) = card (edges A)"
  using assms distinct_card [of "layer_edges M"] unfolding schedule_of_def by auto

lemma max_outgoing_pair: "max_outgoing_connections pair_graph = Inr 1"
  by code_simp

lemma pair_synthesis:
  assumes "ec_oracle s pair_graph sb"
  shows "ec_synthesis s pair_graph 1 sb = Inr (ec_out s pair_graph sb 1)"
    "ec_out s pair_graph sb 1 \<noteq> []"
    "schedule_of pair_graph 1 (ec_out s pair_graph sb 1)"
proof -
  have ne: "pair_graph \<noteq> []" by (simp add: pair_graph_def)
  note sg = simple_pair_graph
  show "ec_synthesis s pair_graph 1 sb = Inr (ec_out s pair_graph sb 1)"
    by (rule ec_synthesis_out [OF sg ne])
  show n: "ec_out s pair_graph sb 1 \<noteq> []"
    using ec_out_nonempty [OF sg ne ec_oracle_pure [OF sg ne assms], of 1]
    by (simp add: colourable_pair edges_pair_graph)
  show "schedule_of pair_graph 1 (ec_out s pair_graph sb 1)"
    by (rule ec_out_schedule [OF sg ne ec_oracle_pure [OF sg ne assms] n])
qed

lemma pair_sat_synthesis:
  assumes "sat_oracle s pair_graph sb"
  shows "sat_synthesis s pair_graph 1 sb = Inr (sat_out s pair_graph sb 1)"
    "sat_out s pair_graph sb 1 \<noteq> []"
    "schedule_of pair_graph 1 (sat_out s pair_graph sb 1)"
    "sat_synthesis s pair_graph 0 sb = Inr []"
proof -
  note sg = simple_pair_graph
  show "sat_synthesis s pair_graph 1 sb = Inr (sat_out s pair_graph sb 1)"
    by (rule sat_synthesis_out [OF sg])
  show n: "sat_out s pair_graph sb 1 \<noteq> []"
    using sat_out_nonempty [OF sg sat_oracle_pure [OF sg assms], of 1]
    by (simp add: colourable_pair edges_pair_graph)
  show "schedule_of pair_graph 1 (sat_out s pair_graph sb 1)"
    by (rule sat_out_schedule [OF sg sat_oracle_pure [OF sg assms] n])
  have "sat_out s pair_graph sb 0 = []"
    using sat_out_nonempty [OF sg sat_oracle_pure [OF sg assms], of 0]
    by (simp add: colourable_pair)
  then show "sat_synthesis s pair_graph 0 sb = Inr []"
    by (simp add: sat_synthesis_out [OF sg])
qed

lemma pair_materialize:
  assumes "schedule_of pair_graph d M"
  shows "map_synthesis_depth_optimal_mapping_to_qcircuit (Some M) pair_graph
           = Inr (circuit_of pair_graph M)"
    "count_single_qubit_gates (circuit_of pair_graph M) = 2"
    "count_two_qubit_gates (circuit_of pair_graph M) = 1"
proof -
  have ne: "pair_graph \<noteq> []" by (simp add: pair_graph_def)
  show "map_synthesis_depth_optimal_mapping_to_qcircuit (Some M) pair_graph
           = Inr (circuit_of pair_graph M)"
    by (rule materialize_valid [OF ne schedule_valid_edges [OF assms]])
  show "count_single_qubit_gates (circuit_of pair_graph M) = 2"
    by (simp add: count_gates_circuit_of pair_graph_def)
  show "count_two_qubit_gates (circuit_of pair_graph M) = 1"
    by (simp add: count_gates_circuit_of schedule_length [OF assms] edges_pair_graph)
qed

lemma pair_ec_searches:
  assumes "ec_oracle s pair_graph sb"
  shows "ec_linear_search s pair_graph sb
           = Inr (circuit_of pair_graph (ec_out s pair_graph sb 1), 1, 1)"
    "ec_binary_search s pair_graph sb
           = Some (Inr (circuit_of pair_graph (ec_out s pair_graph sb 1), 1, 1))"
proof -
  note p = pair_synthesis [OF assms]
  have "linear_run (\<lambda>d. ec_synthesis s pair_graph d sb) 1 2 =
         Inr \<lparr>ls_depth = 1, ls_solver_calls = 1, ls_mapping = Some (ec_out s pair_graph sb 1),
              ls_probed = [1]\<rparr>"
    by (rule linear_run_first) (simp_all add: p)
  then show "ec_linear_search s pair_graph sb
           = Inr (circuit_of pair_graph (ec_out s pair_graph sb 1), 1, 1)"
    by (simp add: ec_linear_search_def ec_linear_run_def max_outgoing_pair length_pair_graph
        linear_result_def pair_materialize(1) [OF p(3)])
  have "binary_run (\<lambda>d. ec_synthesis s pair_graph d sb) 1 2
          = Some (Inr (ec_out s pair_graph sb 1, 1, 1))"
    by (rule binary_run_at_left) (simp_all add: p)
  then show "ec_binary_search s pair_graph sb
           = Some (Inr (circuit_of pair_graph (ec_out s pair_graph sb 1), 1, 1))"
    by (simp add: ec_binary_search_def max_outgoing_pair binary_result_def length_pair_graph
        pair_materialize(1) [OF p(3)])
qed

lemma pair_sat_searches:
  assumes "sat_oracle s pair_graph sb"
  shows "sat_linear_search s pair_graph sb
           = Inr (circuit_of pair_graph (sat_out s pair_graph sb 1), 1, 2)"
    "sat_binary_search s pair_graph sb
           = Some (Inr (circuit_of pair_graph (sat_out s pair_graph sb 1), 1, 2))"
proof -
  note p = pair_sat_synthesis [OF assms]
  have "linear_run (\<lambda>d. sat_synthesis s pair_graph d sb) 0 2 =
         Inr \<lparr>ls_depth = 0 + 1, ls_solver_calls = 2,
              ls_mapping = Some (sat_out s pair_graph sb 1), ls_probed = [0, 0 + 1]\<rparr>"
    by (rule linear_run_second) (simp_all add: p)
  then show "sat_linear_search s pair_graph sb
           = Inr (circuit_of pair_graph (sat_out s pair_graph sb 1), 1, 2)"
    by (simp add: sat_linear_search_def sat_linear_run_def length_pair_graph
        linear_result_def pair_materialize(1) [OF p(3)])
  have "binary_run (\<lambda>d. sat_synthesis s pair_graph d sb) 0 2
          = Some (Inr (sat_out s pair_graph sb 1, 0 + 1, 2))"
    by (rule binary_run_above_left) (simp_all add: p)
  then show "sat_binary_search s pair_graph sb
           = Some (Inr (circuit_of pair_graph (sat_out s pair_graph sb 1), 1, 2))"
    by (simp add: sat_binary_search_def binary_result_def length_pair_graph
        pair_materialize(1) [OF p(3)])
qed

lemma not_all_zero_pair: "\<not> all_zero pair_graph"
  by (simp add: all_zero_def pair_graph_def)

lemma pair_entry_points:
  assumes "extract_adjacency_matrix (name c) = Inr pair_graph"
  shows "ec_oracle s pair_graph sb \<Longrightarrow>
           observed (synthesize_graph_state_edge_colouring s draw t0 t1 c sb lin)
             = Some (1, 2, 1, 3, 1)"
    and "sat_oracle s pair_graph sb \<Longrightarrow>
           observed (synthesize_graph_state_sat_solver s draw t0 t1 c sb lin)
             = Some (1, 2, 1, 3, 2)"
proof -
  assume o: "ec_oracle s pair_graph sb"
  note g = pair_materialize(2,3) [OF pair_synthesis(3) [OF o]]
  show "observed (synthesize_graph_state_edge_colouring s draw t0 t1 c sb lin) = Some (1, 2, 1, 3, 1)"
    by (cases lin)
      (simp_all add: synthesize_graph_state_edge_colouring_def assms not_all_zero_pair
        pair_ec_searches [OF o] finish_def search_result_def observed_def g)
next
  assume o: "sat_oracle s pair_graph sb"
  note g = pair_materialize(2,3) [OF pair_sat_synthesis(3) [OF o]]
  show "observed (synthesize_graph_state_sat_solver s draw t0 t1 c sb lin) = Some (1, 2, 1, 3, 2)"
    by (cases lin)
      (simp_all add: synthesize_graph_state_sat_solver_def assms not_all_zero_pair
        pair_sat_searches [OF o] finish_def search_result_def observed_def g)
qed

lemma simple_star_graph: "simple_graph star_graph"
  by (simp add: simple_graph_def star_graph_def less_Suc_eq numeral_Bit0 numeral_Bit1
      eval_nat_numeral)

lemma edges_star_graph: "edges star_graph = {(1, 0), (2, 0), (3, 0)}"
  by (auto simp: edges_def star_graph_def less_Suc_eq eval_nat_numeral nth_Cons')

lemma max_degree_star: "max_degree star_graph = 3"
  by code_simp

lemma max_outgoing_star: "max_outgoing_connections star_graph = Inr 1"
  by code_simp

lemma star_model_proper:
  assumes "3 \<le> d"
  shows "proper star_graph d (ec_colour star_model)"
  using assms
  by (auto simp: proper_def edges_star_graph ec_colour_def star_model_def adjacent_def)

lemma ec_oracle_star: "ec_oracle (try_models [star_model]) star_graph False"
proof (rule ec_oracle_try [OF simple_star_graph])
  show "star_graph \<noteq> []" by (simp add: star_graph_def)
  fix d assume "colourable star_graph d"
  then have "3 \<le> d"
    using colourable_degree [OF simple_star_graph, of d] edges_star_graph max_degree_star
    by simp
  then have "proper star_graph d (ec_colour star_model)" by (rule star_model_proper)
  moreover have "ec_pure star_graph d False
      = ec_bounds (ec_vars star_graph) d @ ec_conflicts_pure star_graph"
    by (simp add: ec_pure_def)
  ultimately show "satisfies star_model (ec_pure star_graph d False)"
    using ec_plain_sem [OF simple_star_graph, of star_model d] by simp
qed

lemma ec_linear_run_star:
  "ec_linear_run (try_models [star_model]) star_graph False =
     Inr \<lparr>ls_depth = 3, ls_solver_calls = 3,
          ls_mapping = Some [(0, [(1, 0)]), (1, [(2, 0)]), (2, [(3, 0)])],
          ls_probed = [1, 2, 3]\<rparr>"
  by code_simp

lemma max_outgoing_is_max:
  assumes "max_outgoing_connections A = Inr lo" "simple_graph A" "A \<noteq> []"
  shows "(\<forall>i<length A. int (lower_degree A i) \<le> lo) \<and> (\<exists>i<length A. lo = int (lower_degree A i))"
proof -
  let ?xs = "map (\<lambda>i. int (lower_degree A i)) [0..<length A]"
  have lo: "lo = foldl max (- 1) ?xs"
    using assms max_outgoing_simple by simp
  have up: "int (lower_degree A i) \<le> lo" if "i < length A" for i
    unfolding lo by (rule foldl_max_upper) (use that in simp)
  have "lo \<noteq> - 1" using up [of 0] assms(3) by auto
  then have "lo \<in> set ?xs" using foldl_max_mem [of "- 1" ?xs] lo by simp
  then have "\<exists>i<length A. lo = int (lower_degree A i)" by auto
  with up show ?thesis by blast
qed

lemma simple_path_graph: "simple_graph path_graph"
  by (simp add: simple_graph_def path_graph_def less_Suc_eq eval_nat_numeral)

lemma edges_path_graph: "edges path_graph = {(1, 0), (2, 1)}"
  by (auto simp: edges_def path_graph_def less_Suc_eq eval_nat_numeral nth_Cons')

lemma max_degree_path: "max_degree path_graph = 2"
  by code_simp

lemma ec_oracle_path: "ec_oracle (try_models [swap_model]) path_graph False"
proof (rule ec_oracle_try [OF simple_path_graph])
  show "path_graph \<noteq> []" by (simp add: path_graph_def)
  fix d assume "colourable path_graph d"
  then have "2 \<le> d"
    using colourable_degree [OF simple_path_graph, of d] edges_path_graph max_degree_path
    by simp
  then have "proper path_graph d (ec_colour swap_model)"
    by (auto simp: proper_def edges_path_graph ec_colour_def swap_model_def adjacent_def)
  moreover have "ec_pure path_graph d False
      = ec_bounds (ec_vars path_graph) d @ ec_conflicts_pure path_graph"
    by (simp add: ec_pure_def)
  ultimately show "satisfies swap_model (ec_pure path_graph d False)"
    using ec_plain_sem [OF simple_path_graph, of swap_model d] by simp
qed

lemma cz_instructions_layers:
  "cz_instructions (layer_edges M)
     = concat (map (\<lambda>(l, es). map (\<lambda>e. (''cz'', [fst e, snd e])) es) M)"
  by (induction M) (auto simp: cz_instructions_def)

section \<open>Lemmas: names and matrices\<close>

lemma isqrt_set: "set (filter (\<lambda>k. k * k \<le> n) [0..<Suc n]) = {k. k \<le> n \<and> k * k \<le> n}"
  by (auto simp: less_Suc_eq_le simp del: upt_Suc)

lemma isqrt_sandwich: "isqrt n * isqrt n \<le> n \<and> n < Suc (isqrt n) * Suc (isqrt n)"
proof -
  let ?S = "{k. k \<le> n \<and> k * k \<le> n}"
  have fin: "finite ?S" by simp
  have "0 \<in> ?S" by simp
  then have ne: "?S \<noteq> {}" by blast
  have r: "isqrt n = Max ?S" by (simp only: isqrt_def isqrt_set)
  have "Max ?S \<in> ?S" by (rule Max_in [OF fin ne])
  then have 1: "isqrt n * isqrt n \<le> n" by (simp add: r)
  have 2: "n < Suc (isqrt n) * Suc (isqrt n)"
  proof (rule ccontr)
    assume "\<not> n < Suc (isqrt n) * Suc (isqrt n)"
    then have le: "Suc (isqrt n) * Suc (isqrt n) \<le> n" by simp
    moreover have "Suc (isqrt n) \<le> Suc (isqrt n) * Suc (isqrt n)" by simp
    ultimately have "Suc (isqrt n) \<in> ?S" by simp
    then have "Suc (isqrt n) \<le> Max ?S" by (rule Max_ge [OF fin])
    then show False by (simp add: r)
  qed
  from 1 2 show ?thesis by simp
qed

lemma isqrt_square: "isqrt (m * m) = m"
proof -
  have a: "isqrt (m * m) * isqrt (m * m) \<le> m * m"
    and b: "m * m < Suc (isqrt (m * m)) * Suc (isqrt (m * m))"
    using isqrt_sandwich [of "m * m"] by simp_all
  have "isqrt (m * m) \<le> m"
  proof (rule ccontr)
    assume "\<not> isqrt (m * m) \<le> m"
    then have lt: "m < isqrt (m * m)" by simp
    then have "m * m \<le> m * isqrt (m * m)" by simp
    also have "m * isqrt (m * m) < isqrt (m * m) * isqrt (m * m)"
      using lt by (intro mult_less_mono1) simp_all
    finally show False using a by simp
  qed
  moreover have "m \<le> isqrt (m * m)"
  proof (rule ccontr)
    assume "\<not> m \<le> isqrt (m * m)"
    then have "Suc (isqrt (m * m)) \<le> m" by simp
    then have "Suc (isqrt (m * m)) * Suc (isqrt (m * m)) \<le> m * m"
      by (intro mult_le_mono)
    then show False using b by simp
  qed
  ultimately show ?thesis by simp
qed

lemma slices_concat:
  assumes "\<And>r. r \<in> set rs \<Longrightarrow> length r = n"
  shows "map (\<lambda>i. drop (i * n) (take ((i + 1) * n) (concat rs))) [0..<length rs] = rs"
  using assms
proof (induction rs)
  case Nil
  then show ?case by simp
next
  case (Cons r rs)
  have len: "length r = n" using Cons.prems by simp
  have IH: "map (\<lambda>i. drop (i * n) (take ((i + 1) * n) (concat rs))) [0..<length rs] = rs"
    using Cons by simp
  have "[0..<length (r # rs)] = 0 # map Suc [0..<length rs]"
    by (simp add: upt_conv_Cons map_Suc_upt del: upt_Suc)
  then have "map (\<lambda>i. drop (i * n) (take ((i + 1) * n) (concat (r # rs)))) [0..<length (r # rs)]
      = drop 0 (take n (r @ concat rs))
        # map (\<lambda>i. drop (Suc i * n) (take ((Suc i + 1) * n) (r @ concat rs))) [0..<length rs]"
    by (simp add: comp_def del: upt_Suc)
  also have "drop 0 (take n (r @ concat rs)) = r" using len by simp
  also have "map (\<lambda>i. drop (Suc i * n) (take ((Suc i + 1) * n) (r @ concat rs))) [0..<length rs]
      = map (\<lambda>i. drop (i * n) (take ((i + 1) * n) (concat rs))) [0..<length rs]"
    using len by (simp del: upt_Suc)
  finally show ?case using IH by simp
qed

lemma slices_take:
  "concat (map (\<lambda>i. drop (i * n) (take ((i + 1) * n) xs)) [0..<m]) = take (m * n) xs"
proof (induction m)
  case 0
  then show ?case by simp
next
  case (Suc m)
  have "take (m * n) xs @ drop (m * n) (take (n + m * n) xs) = take (n + m * n) xs"
    by (metis append_take_drop_id take_take min_def le_add2)
  then show ?case using Suc by simp
qed

lemma length_concat_square:
  "(\<And>r. r \<in> set rs \<Longrightarrow> length r = n) \<Longrightarrow> length (concat rs) = length rs * n"
  by (induction rs) auto



lemma concatE_singletons:
  assumes "\<And>x. x \<in> set xs \<Longrightarrow> f x = Inr (g x)"
  shows "concatE (\<lambda>m. bindE (f m) (\<lambda>v. Inr [v])) xs = Inr (map g xs)"
  using assms by (induction xs) simp_all

lemma concatE_fails:
  assumes "x \<in> set xs" "f x = Inl e"
    and "\<And>y. y \<in> set xs \<Longrightarrow> f y = Inl e \<or> (\<exists>v. f y = Inr v)"
  shows "concatE (\<lambda>m. bindE (f m) (\<lambda>v. Inr [v])) xs = Inl e"
  using assms
proof (induction xs)
  case Nil
  then show ?case by simp
next
  case (Cons a xs)
  show ?case
  proof (cases "f a")
    case (Inl e')
    then have "e' = e" using Cons.prems(3) [of a] by simp
    then show ?thesis using Inl by simp
  next
    case (Inr v)
    then have "x \<in> set xs" using Cons.prems(1,2) by auto
    then have "concatE (\<lambda>m. bindE (f m) (\<lambda>v. Inr [v])) xs = Inl e"
      using Cons.IH Cons.prems(2,3) by simp
    then show ?thesis using Inr by simp
  qed
qed

lemma findall_digits_block:
  "(\<And>c. c \<in> set ds \<Longrightarrow> is_digit c) \<Longrightarrow> findall_digits run (ds @ s) = findall_digits (run @ ds) s"
  by (induction ds arbitrary: run) simp_all

lemma findall_digit_free:
  "(\<And>c. c \<in> set pre \<Longrightarrow> \<not> is_digit c) \<Longrightarrow> findall_digits [] (pre @ s) = findall_digits [] s"
  by (induction pre) simp_all

lemma findall_append:
  "pre \<noteq> [] \<Longrightarrow> \<not> is_digit (last pre)
     \<Longrightarrow> findall_digits run (pre @ s) = findall_digits run pre @ findall_digits [] s"
proof (induction pre arbitrary: run)
  case Nil
  then show ?case by simp
next
  case (Cons c pre)
  show ?case
  proof (cases "pre = []")
    case True
    then show ?thesis using Cons.prems by simp
  next
    case False
    then have l: "\<not> is_digit (last pre)" using Cons.prems by simp
    show ?thesis using Cons.IH [OF False l] by simp
  qed
qed

lemma findall_run:
  assumes "r \<noteq> []" "\<And>c. c \<in> set r \<Longrightarrow> is_digit c" "post = [] \<or> \<not> is_digit (hd post)"
  shows "findall_digits [] (r @ post) = r # findall_digits [] post"
proof -
  have "findall_digits [] (r @ post) = findall_digits r post"
    using findall_digits_block [where ds = r and run = "[]" and s = post] assms(2) by simp
  also have "\<dots> = r # findall_digits [] post"
    using assms(1,3) by (cases post) simp_all
  finally show ?thesis .
qed

lemma findall_delimited:
  assumes "r \<noteq> []" "\<And>c. c \<in> set r \<Longrightarrow> is_digit c"
    and "pre = [] \<or> \<not> is_digit (last pre)" "post = [] \<or> \<not> is_digit (hd post)"
  shows "findall_digits [] (pre @ r @ post) = findall_digits [] pre @ r # findall_digits [] post"
proof (cases "pre = []")
  case True
  then show ?thesis using findall_run [OF assms(1,2,4)] by simp
next
  case False
  then have "findall_digits [] (pre @ r @ post)
      = findall_digits [] pre @ findall_digits [] (r @ post)"
    using assms(3) by (intro findall_append) simp_all
  then show ?thesis using findall_run [OF assms(1,2,4)] by simp
qed

lemma findall_maximal: "findall_digits [] s = maximal_digit_runs s"
proof (induction s rule: maximal_digit_runs.induct)
  case (1 s)
  let ?pre = "takeWhile (\<lambda>c. \<not> is_digit c) s"
  let ?t = "dropWhile (\<lambda>c. \<not> is_digit c) s"
  have free: "\<And>c. c \<in> set ?pre \<Longrightarrow> \<not> is_digit c" by (auto dest: set_takeWhileD)
  have "findall_digits [] (?pre @ ?t) = findall_digits [] ?t"
    by (rule findall_digit_free) (rule free)
  then have f: "findall_digits [] s = findall_digits [] ?t" by simp
  show ?case
  proof (cases ?t)
    case Nil
    have "maximal_digit_runs s = []"
      by (subst maximal_digit_runs.simps) (simp only: Nil list.case)
    moreover have "findall_digits [] s = []" unfolding f Nil by simp
    ultimately show ?thesis by simp
  next
    case (Cons c t)
    then have d: "is_digit c" by (simp add: dropWhile_eq_Cons_conv)
    let ?r = "takeWhile is_digit (c # t)"
    let ?post = "dropWhile is_digit (c # t)"
    have r: "?r \<noteq> []" using d by simp
    have rd: "\<And>x. x \<in> set ?r \<Longrightarrow> is_digit x" by (auto dest: set_takeWhileD)
    have p: "?post = [] \<or> \<not> is_digit (hd ?post)"
      using hd_dropWhile [of is_digit "c # t"] by blast
    have "findall_digits [] (?r @ ?post) = ?r # findall_digits [] ?post"
      by (rule findall_run [OF r rd p])
    then have "findall_digits [] (c # t) = ?r # findall_digits [] ?post"
      by (simp only: takeWhile_dropWhile_id)
    moreover have "findall_digits [] ?post = maximal_digit_runs ?post"
      by (rule "1.IH" [OF Cons])
    moreover have "maximal_digit_runs s = ?r # maximal_digit_runs ?post"
      by (subst maximal_digit_runs.simps) (simp only: Cons list.case)
    moreover have "findall_digits [] s = findall_digits [] (c # t)" unfolding f Cons ..
    ultimately show ?thesis by (simp only:)
  qed
qed

lemma digit_chars:
  assumes "d < 10"
  shows "is_digit (char_of (48 + d))" "digit_value (char_of (48 + d)) = d"
proof -
  have t: "\<forall>k\<in>set [0..<10]. is_digit (char_of (48 + k)) \<and> digit_value (char_of (48 + k)) = k"
    by code_simp
  have "d \<in> set [0..<10]" using assms by simp
  with t show "is_digit (char_of (48 + d))" "digit_value (char_of (48 + d)) = d"
    by blast+
qed

lemma str_nat_digits: "str_nat n \<noteq> [] \<and> (\<forall>c\<in>set (str_nat n). is_digit c)"
proof (induction n rule: str_nat.induct)
  case (1 n)
  show ?case
  proof (cases "n < 10")
    case True
    then show ?thesis using digit_chars(1) [of n] by simp
  next
    case False
    have "is_digit (char_of (48 + n mod 10))" by (rule digit_chars(1)) simp
    then show ?thesis
      using False "1.IH" by (simp del: str_nat.simps add: str_nat.simps [of n])
  qed
qed

lemma decimal_value_snoc:
  "decimal_value (ds @ [c]) = 10 * decimal_value ds + digit_value c"
proof -
  have a: "decimal_value (ds @ [c])
      = sum_list (map (\<lambda>i. digit_value ((ds @ [c]) ! i) * 10 ^ (length ds - i)) [0..<length ds])
        + digit_value c"
    by (simp add: decimal_value_def)
  have "map (\<lambda>i. digit_value ((ds @ [c]) ! i) * 10 ^ (length ds - i)) [0..<length ds]
      = map (\<lambda>i. 10 * (digit_value (ds ! i) * 10 ^ (length ds - Suc i))) [0..<length ds]"
  proof (rule map_cong)
    fix i assume "i \<in> set [0..<length ds]"
    then have i: "i < length ds" by simp
    then have "length ds - i = Suc (length ds - Suc i)" by simp
    then show "digit_value ((ds @ [c]) ! i) * 10 ^ (length ds - i)
        = 10 * (digit_value (ds ! i) * 10 ^ (length ds - Suc i))"
      using i by (simp add: nth_append)
  qed simp
  then have "sum_list (map (\<lambda>i. digit_value ((ds @ [c]) ! i) * 10 ^ (length ds - i)) [0..<length ds])
      = 10 * decimal_value ds"
    by (simp only: sum_list_const_mult decimal_value_def)
  with a show ?thesis by simp
qed

lemma decimal_value_foldl:
  "foldl (\<lambda>a c. 10 * a + digit_value c) 0 ds = decimal_value ds"
  by (induction ds rule: rev_induct) (simp_all add: decimal_value_snoc, simp add: decimal_value_def)

lemma py_int_decimal:
  "py_int ds = (if ds = [] \<or> int_max_str_digits < length ds then Inl ValueError
                else Inr (int (decimal_value ds)))"
  by (simp add: py_int_def decimal_value_foldl)

lemma decimal_value_str_nat: "decimal_value (str_nat n) = n"
proof (induction n rule: str_nat.induct)
  case (1 n)
  show ?case
  proof (cases "n < 10")
    case True
    have "decimal_value [char_of (48 + n)] = n"
      using decimal_value_snoc [of "[]" "char_of (48 + n)"] digit_chars(2) [OF True]
      by (simp add: decimal_value_def)
    then show ?thesis using True by simp
  next
    case False
    have "digit_value (char_of (48 + n mod 10)) = n mod 10" by (rule digit_chars(2)) simp
    then show ?thesis
      using False "1.IH"
      by (simp del: str_nat.simps add: str_nat.simps [of n] decimal_value_snoc)
  qed
qed

lemma findall_concat: "concat (findall_digits run s) = run @ filter is_digit s"
  by (induction s arbitrary: run) auto

lemma findall_runs:
  assumes "\<And>ch. ch \<in> set run \<Longrightarrow> is_digit ch" "r \<in> set (findall_digits run s)"
  shows "r \<noteq> [] \<and> (\<forall>ch\<in>set r. is_digit ch)"
  using assms
proof (induction s arbitrary: run)
  case Nil
  then show ?case by (auto split: if_splits)
next
  case (Cons c s)
  show ?case
  proof (cases "is_digit c")
    case True
    then have "r \<in> set (findall_digits (run @ [c]) s)" using Cons.prems(2) by simp
    moreover have "\<And>ch. ch \<in> set (run @ [c]) \<Longrightarrow> is_digit ch"
      using Cons.prems(1) True by auto
    ultimately show ?thesis by (rule Cons.IH [rotated])
  next
    case False
    then consider "r = run" "run \<noteq> []" | "r \<in> set (findall_digits [] s)"
      using Cons.prems(2) by (auto split: if_splits)
    then show ?thesis
    proof cases
      case 1
      then show ?thesis using Cons.prems(1) by simp
    next
      case 2
      then show ?thesis using Cons.IH [of "[]"] by simp
    qed
  qed
qed


lemma str_int_nonneg: "0 \<le> x \<Longrightarrow> str_int x = str_nat (nat x)"
  by (simp add: str_int_def)

lemma str_int_digits:
  assumes "0 \<le> x"
  shows "str_int x \<noteq> []" "\<And>c. c \<in> set (str_int x) \<Longrightarrow> is_digit c"
  using str_nat_digits [of "nat x"] by (simp_all only: str_int_nonneg [OF assms]) blast

lemma py_int_str_int:
  assumes "0 \<le> x" "length (str_int x) \<le> int_max_str_digits"
  shows "py_int (str_int x) = Inr x"
proof -
  have "decimal_value (str_int x) = nat x"
    by (simp only: str_int_nonneg [OF assms(1)] decimal_value_str_nat)
  then show ?thesis
    using assms str_int_digits(1) [OF assms(1)] by (simp add: py_int_decimal)
qed

lemma digit_facts:
  "is_digit CHR ''0''" "is_digit CHR ''1''" "\<not> is_digit CHR '',''" "\<not> is_digit CHR '' ''"
  "\<not> is_digit CHR ''[''" "\<not> is_digit CHR '']''"
  by (simp_all add: is_digit_def)

lemma findall_skip: "\<not> is_digit c \<Longrightarrow> findall_digits [] (c # s) = findall_digits [] s"
  by simp

lemma findall_entry:
  assumes "0 \<le> x" "\<not> is_digit h"
  shows "findall_digits [] (str_int x @ h # t) = str_int x # findall_digits [] t"
proof -
  have "findall_digits [] (str_int x @ h # t) = str_int x # findall_digits [] (h # t)"
    by (rule findall_run [OF str_int_digits [OF assms(1)]]) (simp_all add: assms(2))
  then show ?thesis by (simp only: findall_skip [OF assms(2)])
qed

lemma findall_entries:
  assumes "\<And>x. x \<in> set xs \<Longrightarrow> 0 \<le> x" "\<not> is_digit h"
  shows "findall_digits [] (join '', '' (map str_int xs) @ h # t)
         = map str_int xs @ findall_digits [] (h # t)"
  using assms(1)
proof (induction xs)
  case Nil
  then show ?case by simp
next
  case (Cons x xs)
  have x: "0 \<le> x" using Cons.prems by simp
  have IH: "findall_digits [] (join '', '' (map str_int xs) @ h # t)
         = map str_int xs @ findall_digits [] (h # t)"
    by (rule Cons.IH) (use Cons.prems in simp)
  show ?case
  proof (cases xs)
    case Nil
    have "findall_digits [] (str_int x @ h # t) = str_int x # findall_digits [] t"
      by (rule findall_entry [OF x assms(2)])
    moreover have "findall_digits [] (h # t) = findall_digits [] t"
      by (rule findall_skip [OF assms(2)])
    ultimately show ?thesis using Nil by simp
  next
    case (Cons y ys)
    have "findall_digits [] (join '', '' (map str_int (x # xs)) @ h # t)
        = findall_digits [] (str_int x @ CHR '','' # CHR '' '' # (join '', '' (map str_int xs) @ h # t))"
      using Cons by simp
    also have "\<dots> = str_int x # findall_digits [] (CHR '' '' # (join '', '' (map str_int xs) @ h # t))"
      by (rule findall_entry [OF x digit_facts(3)])
    also have "\<dots> = str_int x # findall_digits [] (join '', '' (map str_int xs) @ h # t)"
      by (simp only: findall_skip [OF digit_facts(4)])
    finally show ?thesis using IH by simp
  qed
qed

lemma findall_row:
  assumes "\<And>x. x \<in> set xs \<Longrightarrow> 0 \<le> x"
  shows "findall_digits [] (str_list str_int xs @ t) = map str_int xs @ findall_digits [] t"
proof -
  have "findall_digits [] (str_list str_int xs @ t)
      = findall_digits [] (join '', '' (map str_int xs) @ CHR '']'' # t)"
    using digit_facts by (simp add: str_list_def findall_skip del: findall_digits.simps)
  also have "\<dots> = map str_int xs @ findall_digits [] (CHR '']'' # t)"
    using digit_facts by (intro findall_entries assms) simp_all
  also have "\<dots> = map str_int xs @ findall_digits [] t"
    by (simp only: findall_skip [OF digit_facts(6)])
  finally show ?thesis .
qed

lemma findall_rows:
  assumes "\<And>row x. row \<in> set A \<Longrightarrow> x \<in> set row \<Longrightarrow> 0 \<le> x"
  shows "findall_digits [] (join '', '' (map (str_list str_int) A) @ t)
         = concat (map (map str_int) A) @ findall_digits [] t"
  using assms
proof (induction A)
  case Nil
  then show ?case by simp
next
  case (Cons row A)
  have row: "\<And>x. x \<in> set row \<Longrightarrow> 0 \<le> x" using Cons.prems [of row] by simp
  have IH: "findall_digits [] (join '', '' (map (str_list str_int) A) @ t)
         = concat (map (map str_int) A) @ findall_digits [] t"
    by (rule Cons.IH) (use Cons.prems in fastforce)
  show ?case
  proof (cases A)
    case Nil
    then show ?thesis using findall_row [OF row] by simp
  next
    case (Cons r rs)
    have "findall_digits [] (join '', '' (map (str_list str_int) (row # A)) @ t)
        = findall_digits [] (str_list str_int row
            @ CHR '','' # CHR '' '' # (join '', '' (map (str_list str_int) A) @ t))"
      using Cons by simp
    also have "\<dots> = map str_int row
        @ findall_digits [] (CHR '','' # CHR '' '' # (join '', '' (map (str_list str_int) A) @ t))"
      by (rule findall_row [OF row])
    also have "\<dots> = map str_int row
        @ findall_digits [] (join '', '' (map (str_list str_int) A) @ t)"
      by (simp only: findall_skip [OF digit_facts(3)] findall_skip [OF digit_facts(4)])
    finally show ?thesis using IH by simp
  qed
qed

lemma findall_matrix_name:
  assumes "\<And>row x. row \<in> set A \<Longrightarrow> x \<in> set row \<Longrightarrow> 0 \<le> x"
  shows "findall_digits [] (''Depth optimal circuit of Graphstate g: '' @ str_matrix A)
         = concat (map (map str_int) A)"
proof -
  have "findall_digits [] (''Depth optimal circuit of Graphstate g: '' @ str_matrix A)
      = findall_digits [] (join '', '' (map (str_list str_int) A) @ '']'')"
    by (simp add: str_matrix_def str_list_def is_digit_def)
  also have "\<dots> = concat (map (map str_int) A) @ findall_digits [] '']''"
    by (rule findall_rows [OF assms])
  finally show ?thesis by (simp add: is_digit_def)
qed

lemma extract_numbers:
  assumes "\<And>r. r \<in> set (findall_digits [] nm) \<Longrightarrow> py_int r = Inr (g r)"
  shows "extract_adjacency_matrix nm
       = Inr (map (\<lambda>i. drop (i * isqrt (length (findall_digits [] nm)))
                         (take ((i + 1) * isqrt (length (findall_digits [] nm)))
                            (map g (findall_digits [] nm))))
                [0..<isqrt (length (findall_digits [] nm))])"
  by (simp add: extract_adjacency_matrix_def Let_def concatE_singletons [OF assms] del: upt_Suc)

lemma py_int_run:
  assumes "r \<in> set (findall_digits [] nm)"
  shows "py_int r = (if length r \<le> int_max_str_digits then Inr (int (decimal_value r))
                     else Inl ValueError)"
proof -
  have "r \<noteq> []" using findall_runs [of "[]" r nm] assms by simp
  then show ?thesis by (simp add: py_int_decimal)
qed

lemma extract_within_limit:
  assumes "\<And>r. r \<in> set (findall_digits [] nm) \<Longrightarrow> length r \<le> int_max_str_digits"
  shows "extract_adjacency_matrix nm
       = Inr (map (\<lambda>i. drop (i * isqrt (length (findall_digits [] nm)))
                         (take ((i + 1) * isqrt (length (findall_digits [] nm)))
                            (map (\<lambda>r. int (decimal_value r)) (findall_digits [] nm))))
                [0..<isqrt (length (findall_digits [] nm))])"
  by (rule extract_numbers) (simp add: py_int_run assms)

lemma extract_beyond_limit:
  assumes "r \<in> set (findall_digits [] nm)" "int_max_str_digits < length r"
  shows "extract_adjacency_matrix nm = Inl ValueError"
proof -
  have "concatE (\<lambda>m. bindE (py_int m) (\<lambda>v. Inr [v])) (findall_digits [] nm) = Inl ValueError"
  proof (rule concatE_fails [OF assms(1)])
    show "py_int r = Inl ValueError" using assms(2) by (simp add: py_int_def)
    show "py_int y = Inl ValueError \<or> (\<exists>v. py_int y = Inr v)" for y
      by (simp add: py_int_def)
  qed
  then show ?thesis by (simp add: extract_adjacency_matrix_def Let_def)
qed

lemma extract_round_trip:
  assumes "square_nat A"
  shows "extract_adjacency_matrix (''Depth optimal circuit of Graphstate g: '' @ str_matrix A)
         = Inr A"
proof -
  let ?nm = "''Depth optimal circuit of Graphstate g: '' @ str_matrix A"
  have nonneg: "\<And>row x. row \<in> set A \<Longrightarrow> x \<in> set row \<Longrightarrow> 0 \<le> x"
    and short: "\<And>row x. row \<in> set A \<Longrightarrow> x \<in> set row \<Longrightarrow> length (str_int x) \<le> int_max_str_digits"
    and rows: "\<And>row. row \<in> set A \<Longrightarrow> length row = length A"
    using assms by (auto simp: square_nat_def)
  have runs: "findall_digits [] ?nm = concat (map (map str_int) A)"
    by (rule findall_matrix_name [OF nonneg])
  have len: "length (concat A) = length A * length A"
    by (rule length_concat_square [OF rows])
  have conv: "concatE (\<lambda>m. bindE (py_int m) (\<lambda>v. Inr [v])) (concat (map (map str_int) A))
      = Inr (concat A)"
  proof -
    have "concatE (\<lambda>m. bindE (py_int m) (\<lambda>v. Inr [v])) (map str_int xs) = Inr xs"
      if "\<And>x. x \<in> set xs \<Longrightarrow> 0 \<le> x \<and> length (str_int x) \<le> int_max_str_digits" for xs
      using that by (induction xs) (simp_all add: py_int_str_int)
    moreover have "\<And>x. x \<in> set (concat A) \<Longrightarrow> 0 \<le> x \<and> length (str_int x) \<le> int_max_str_digits"
      using nonneg short by auto
    ultimately have "concatE (\<lambda>m. bindE (py_int m) (\<lambda>v. Inr [v])) (map str_int (concat A))
        = Inr (concat A)" by blast
    then show ?thesis by (simp add: map_concat)
  qed
  have "extract_adjacency_matrix ?nm
      = Inr (map (\<lambda>i. drop (i * length A) (take ((i + 1) * length A) (concat A))) [0..<length A])"
    by (simp only: extract_adjacency_matrix_def Let_def runs conv bindE_Inr len isqrt_square)
  then show ?thesis by (simp only: slices_concat [OF rows])
qed

lemma str_int_01: "str_int 0 = ''0''" "str_int 1 = ''1''"
  by code_simp+

lemma square01_nat: "square01 A \<Longrightarrow> square_nat A"
  unfolding square01_def square_nat_def
  using str_int_01 by (fastforce simp: int_max_str_digits_def)

lemma slice_nth:
  assumes "i < n" "j < n" "n * n \<le> length xs"
  shows "drop (i * n) (take ((i + 1) * n) xs) ! j = xs ! (i * n + j)"
proof -
  have "(i + 1) * n \<le> n * n" using assms(1) by (intro mult_le_mono) simp_all
  then have "i * n + j < (i + 1) * n" "(i + 1) * n \<le> length xs" using assms(2,3) by simp_all
  then show ?thesis by simp
qed

lemma extract_shape:
  fixes nm :: string
  defines "runs \<equiv> findall_digits [] nm"
  defines "n \<equiv> isqrt (length runs)"
  assumes "extract_adjacency_matrix nm = Inr B"
  shows "length B = n"
    and "\<forall>row\<in>set B. length row = n"
    and "concat B = take (n * n) (map (\<lambda>r. int (decimal_value r)) runs)"
    and "\<forall>i<n. \<forall>j<n. B ! i ! j = int (decimal_value (runs ! (i * n + j)))"
    and "\<forall>r\<in>set runs. length r \<le> int_max_str_digits"
proof -
  have le: "n * n \<le> length runs" using isqrt_sandwich [of "length runs"] by (simp add: n_def)
  show lim: "\<forall>r\<in>set runs. length r \<le> int_max_str_digits"
  proof (rule ccontr)
    assume "\<not> (\<forall>r\<in>set runs. length r \<le> int_max_str_digits)"
    then obtain r where "r \<in> set (findall_digits [] nm)" "int_max_str_digits < length r"
      by (auto simp: runs_def not_le)
    then show False using extract_beyond_limit assms(3) by fastforce
  qed
  have "extract_adjacency_matrix nm
      = Inr (map (\<lambda>i. drop (i * n) (take ((i + 1) * n) (map (\<lambda>r. int (decimal_value r)) runs))) [0..<n])"
    unfolding n_def runs_def by (rule extract_within_limit) (use lim in \<open>simp add: runs_def\<close>)
  then have ex: "B = map (\<lambda>i. drop (i * n) (take ((i + 1) * n) (map (\<lambda>r. int (decimal_value r)) runs))) [0..<n]"
    using assms(3) by simp
  show "length B = n" by (simp add: ex)
  show "concat B = take (n * n) (map (\<lambda>r. int (decimal_value r)) runs)"
    unfolding ex by (rule slices_take)
  show "\<forall>row\<in>set B. length row = n"
  proof
    fix row assume "row \<in> set B"
    then obtain i where i: "i < n"
        "row = drop (i * n) (take ((i + 1) * n) (map (\<lambda>r. int (decimal_value r)) runs))"
      unfolding ex by auto
    have "(i + 1) * n \<le> n * n" using i(1) by (intro mult_le_mono) simp_all
    then have "(i + 1) * n \<le> length runs" using le by simp
    then show "length row = n" by (simp add: i(2) min_def)
  qed
  show "\<forall>i<n. \<forall>j<n. B ! i ! j = int (decimal_value (runs ! (i * n + j)))"
  proof (intro allI impI)
    fix i j assume ij: "i < n" "j < n"
    have "(i + 1) * n \<le> n * n" using ij(1) by (intro mult_le_mono) simp_all
    then have b: "i * n + j < length runs" using ij(2) le by simp
    have "drop (i * n) (take ((i + 1) * n) (map (\<lambda>r. int (decimal_value r)) runs)) ! j
        = map (\<lambda>r. int (decimal_value r)) runs ! (i * n + j)"
      by (rule slice_nth [OF ij]) (use le in simp)
    moreover have "B ! i
        = drop (i * n) (take ((i + 1) * n) (map (\<lambda>r. int (decimal_value r)) runs))"
      unfolding ex using ij(1) by (simp del: upt_Suc)
    ultimately have "B ! i ! j = map (\<lambda>r. int (decimal_value r)) runs ! (i * n + j)"
      by (simp only:)
    then show "B ! i ! j = int (decimal_value (runs ! (i * n + j)))" using b by simp
  qed
qed

lemma cz_edges_name: "cz_edges c es = Inr c' \<Longrightarrow> name c' = name c"
  by (induction es arbitrary: c)
    (auto simp: cz_def bindE_def split: if_splits sum.splits)

lemma cz_layers_name: "cz_layers c M = Inr c' \<Longrightarrow> name c' = name c"
proof (induction M arbitrary: c)
  case Nil
  then show ?case by simp
next
  case (Cons a M)
  obtain l es where a: "a = (l, es)" by (cases a)
  from Cons.prems obtain c1 where c1: "cz_edges c es = Inr c1" "cz_layers c1 M = Inr c'"
    by (auto simp: a bindE_def split: sum.splits)
  then show ?case using Cons.IH [OF c1(2)] cz_edges_name [OF c1(1)] by simp
qed

lemma materialize_name:
  assumes "map_synthesis_depth_optimal_mapping_to_qcircuit M A = Inr c"
  shows "name c = ''Depth optimal circuit of Graphstate g: '' @ str_matrix A"
  using assms cz_layers_name
  by (auto simp: map_synthesis_depth_optimal_mapping_to_qcircuit_def h_range_def Let_def
      bindE_def split: if_splits option.splits)

lemma extract_pair_circuit: "extract_adjacency_matrix (name pair_circuit) = Inr pair_graph"
  by code_simp

lemma ec_synthesis_pair_one:
  "ec_synthesis (try_models [zero_model]) pair_graph 1 False = Inr [(0, [(1, 0)])]"
  by code_simp

lemma ec_satisfiable_pair_one: "ec_satisfiable pair_graph 1 True"
  using ec_satisfiable_iff [OF simple_pair_graph, where sb = True and d = 1]
  by (simp add: colourable_pair) (simp add: pair_graph_def)

lemma ec_synthesis_pair_plain:
  "nonempty_result (ec_synthesis (try_models [zero_model]) pair_graph 1 False)"
  by (simp add: ec_synthesis_pair_one nonempty_result_def)

lemma extract_empty_graph_circuit:
  "extract_adjacency_matrix (name empty_graph_circuit) = Inr [[0, 0], [0, 0]]"
  by code_simp

lemma sat_pure_path:
  "sat_pure path_graph d False =
     [GeC (CzVar 1 0) 0, LtC (CzVar 1 0) d, GeC (IdVar 2 0) 0, GeC (CzVar 2 1) 0,
      LtC (CzVar 2 1) d, NeqV (CzVar 2 1) (IdVar 2 0), NeqV (CzVar 2 1) (CzVar 1 0)]"
  by (simp add: sat_pure_def sat_bounds_def sat_decls_def sat_conflicts_pure_def
      path_graph_def eval_nat_numeral upt_rec)

lemma colourable_path: "colourable path_graph d \<Longrightarrow> 2 \<le> d"
  using colourable_degree [OF simple_path_graph, of d] edges_path_graph max_degree_path
  by simp

lemma sat_oracle_path: "sat_oracle (try_models [swap_model]) path_graph False"
proof (rule sat_oracle_try [OF simple_path_graph])
  fix d assume "colourable path_graph d"
  then have "2 \<le> d" by (rule colourable_path)
  then show "satisfies swap_model (sat_pure path_graph d False)"
    by (simp add: sat_pure_path swap_model_def)
qed

lemma extract_path_circuit: "extract_adjacency_matrix (name path_circuit) = Inr path_graph"
  by code_simp

lemma sat_synthesis_path_two:
  "sat_synthesis (try_models [swap_model]) path_graph 2 False = Inr swapped_mapping"
  by code_simp

lemma valid_schedule_nonempty:
  assumes "valid_schedule A M" "edges A \<noteq> {}"
  shows "M \<noteq> []" "layer_edges M \<noteq> []"
    "count_two_qubit_gates (circuit_of A M) = card (edges A)" "0 < card (edges A)"
proof -
  have d: "distinct (layer_edges M)" and e: "set (layer_edges M) = edges A"
    using assms(1) by (simp_all add: valid_schedule_def)
  show l: "layer_edges M \<noteq> []" using e assms(2) by auto
  then show "M \<noteq> []" by (auto simp: layer_edges_def)
  have c: "length (layer_edges M) = card (edges A)"
    using distinct_card [OF d] e by simp
  then show "count_two_qubit_gates (circuit_of A M) = card (edges A)"
    by (simp add: count_gates_circuit_of)
  have "0 < length (layer_edges M)" using l by simp
  then show "0 < card (edges A)" by (simp only: c)
qed

section \<open>The claims\<close>

text \<open>
  C1. On a simple graph with at least one edge, with a solver that answers correctly on
  the graph's instances, every non-empty mapping either encoder returns puts each edge
  of the graph in exactly one layer, holds the edges of the graph and nothing else, and
  has no two edges with a common node in one layer; and both entry points return a
  depth that is at least the maximum degree.
\<close>

theorem encoder_mapping_is_proper_schedule:
  assumes "simple_graph A" "edges A \<noteq> {}" "ec_oracle s A sb" "sat_oracle s A sb"
    and "extract_adjacency_matrix (name c) = Inr A"
  shows "(\<forall>d M. ec_synthesis s A d sb = Inr M \<and> M \<noteq> [] \<longrightarrow> valid_schedule A M)
       \<and> (\<forall>d M. sat_synthesis s A d sb = Inr M \<and> M \<noteq> [] \<longrightarrow> valid_schedule A M)
       \<and> (\<exists>circ res. synthesize_graph_state_edge_colouring s draw t0 t1 c sb lin
                        = Some (Inr (circ, res)) \<and> int (max_degree A) \<le> r_depth res)
       \<and> (\<exists>circ res. synthesize_graph_state_sat_solver s draw t0 t1 c sb lin
                        = Some (Inr (circ, res)) \<and> int (max_degree A) \<le> r_depth res)"
proof (intro conjI allI impI)
  have ne: "A \<noteq> []" using assms(2) by (rule edges_nonempty_matrix)
  note sg = assms(1) and e = assms(2)
  have nz: "\<not> all_zero A"
    by (rule not_all_zero [OF sg e])
  {
    fix d M assume "ec_synthesis s A d sb = Inr M \<and> M \<noteq> []"
    then have "ec_out s A sb d = M" "ec_out s A sb d \<noteq> []"
      using ec_synthesis_out [OF sg ne, of s d sb] by auto
    then show "valid_schedule A M"
      using schedule_valid [OF ec_out_schedule [OF sg ne ec_oracle_pure [OF sg ne assms(3)]]]
      by blast
  next
    fix d M assume "sat_synthesis s A d sb = Inr M \<and> M \<noteq> []"
    then have "sat_out s A sb d = M" "sat_out s A sb d \<noteq> []"
      using sat_synthesis_out [OF sg, of s d sb] by auto
    then show "valid_schedule A M"
      using schedule_valid [OF sat_out_schedule [OF sg sat_oracle_pure [OF sg assms(4)]]]
      by blast
  next
    obtain lo D calls where r: "schedule_of A D (ec_out s A sb D)"
        "ec_linear_search s A sb = Inr (circuit_of A (ec_out s A sb D), D, nat (D - lo + 1))"
        "ec_binary_search s A sb = Some (Inr (circuit_of A (ec_out s A sb D), D, calls))"
      using ec_searches [OF sg e assms(3)] by blast
    have "int (max_degree A) \<le> D" by (rule schedule_depth [OF sg e r(1)])
    then show "\<exists>circ res. synthesize_graph_state_edge_colouring s draw t0 t1 c sb lin
                        = Some (Inr (circ, res)) \<and> int (max_degree A) \<le> r_depth res"
      using nz r(2,3)
      by (cases lin)
        (simp_all add: synthesize_graph_state_edge_colouring_def assms(5) finish_def
          search_result_def)
  next
    obtain D calls where r: "schedule_of A D (sat_out s A sb D)"
        "sat_linear_search s A sb = Inr (circuit_of A (sat_out s A sb D), D, nat (D + 1))"
        "sat_binary_search s A sb = Some (Inr (circuit_of A (sat_out s A sb D), D, calls))"
      using sat_searches [OF sg e assms(4)] by blast
    have "int (max_degree A) \<le> D" by (rule schedule_depth [OF sg e r(1)])
    then show "\<exists>circ res. synthesize_graph_state_sat_solver s draw t0 t1 c sb lin
                        = Some (Inr (circ, res)) \<and> int (max_degree A) \<le> r_depth res"
      using nz r(2,3)
      by (cases lin)
        (simp_all add: synthesize_graph_state_sat_solver_def assms(5) finish_def
          search_result_def)
  }
qed

theorem encoder_mapping_is_proper_schedule_witness:
  "simple_graph path_graph \<and> edges path_graph \<noteq> {}
   \<and> ec_oracle (try_models [swap_model]) path_graph False
   \<and> sat_oracle (try_models [swap_model]) path_graph False
   \<and> extract_adjacency_matrix (name path_circuit) = Inr path_graph
   \<and> sat_synthesis (try_models [swap_model]) path_graph 2 False = Inr swapped_mapping
   \<and> valid_schedule path_graph swapped_mapping"
proof -
  have e: "edges path_graph \<noteq> {}" by (simp add: edges_path_graph)
  have n: "swapped_mapping \<noteq> []" by (simp add: swapped_mapping_def)
  have "valid_schedule path_graph swapped_mapping"
    using encoder_mapping_is_proper_schedule [OF simple_path_graph e ec_oracle_path
        sat_oracle_path extract_path_circuit]
      sat_synthesis_path_two n
    by blast
  then show ?thesis
    using simple_path_graph e ec_oracle_path sat_oracle_path extract_path_circuit
      sat_synthesis_path_two
    by simp
qed

text \<open>
  C2. On a simple graph, for either encoder and either symmetry-breaking setting, with a
  solver that answers correctly on the graph's instances: if the instance at depth
  \<open>d1\<close> is satisfiable then so is the instance at every greater depth \<open>d2\<close>, both
  for the constraints handed to the solver and for the encoder returning a non-empty
  mapping.
\<close>

theorem satisfiability_monotone_in_depth:
  assumes "simple_graph A" "ec_oracle s A sb" "sat_oracle s A sb" "d1 < d2"
  shows "(ec_satisfiable A d1 sb \<longrightarrow> ec_satisfiable A d2 sb)
       \<and> (sat_satisfiable A d1 sb \<longrightarrow> sat_satisfiable A d2 sb)
       \<and> (nonempty_result (ec_synthesis s A d1 sb) \<longrightarrow> nonempty_result (ec_synthesis s A d2 sb))
       \<and> (nonempty_result (sat_synthesis s A d1 sb) \<longrightarrow> nonempty_result (sat_synthesis s A d2 sb))"
proof -
  note sg = assms(1)
  have mono: "colourable A d1 \<Longrightarrow> colourable A d2"
    using colourable_mono [of A d1 d2] assms(4) by simp
  have sat: "(sat_satisfiable A d1 sb \<longrightarrow> sat_satisfiable A d2 sb)
       \<and> (nonempty_result (sat_synthesis s A d1 sb) \<longrightarrow> nonempty_result (sat_synthesis s A d2 sb))"
    using mono by (simp add: sat_satisfiable_iff [OF sg] sat_nonempty_iff [OF sg assms(3)])
  have ec: "(ec_satisfiable A d1 sb \<longrightarrow> ec_satisfiable A d2 sb)
       \<and> (nonempty_result (ec_synthesis s A d1 sb) \<longrightarrow> nonempty_result (ec_synthesis s A d2 sb))"
  proof (cases "sb \<and> A = []")
    case True
    then show ?thesis
      using ec_synthesis_no_nodes [where s = s and d = d1 and sb = sb] ec_unsatisfiable_no_nodes [where d = d1] by simp
  next
    case False
    then have ne: "sb \<Longrightarrow> A \<noteq> []" by simp
    show ?thesis
      using mono by (simp add: ec_satisfiable_iff [OF sg ne] ec_nonempty_iff [OF sg ne assms(2)])
  qed
  from ec sat show ?thesis by simp
qed

theorem satisfiability_monotone_in_depth_witness:
  "simple_graph pair_graph
   \<and> ec_oracle (try_models [zero_model]) pair_graph True
   \<and> sat_oracle (try_models [zero_model]) pair_graph True
   \<and> (1::int) < 2
   \<and> ec_satisfiable pair_graph 1 True
   \<and> ec_satisfiable pair_graph 2 True"
  using satisfiability_monotone_in_depth [OF simple_pair_graph ec_oracle_pair sat_oracle_pair,
      where sb = True and ?d1.0 = 1 and ?d2.0 = 2]
    simple_pair_graph ec_oracle_pair sat_oracle_pair ec_satisfiable_pair_one
  by simp

text \<open>
  C3. On a simple graph with at least one edge, for either encoder and either
  symmetry-breaking setting, with a solver that answers correctly on the graph's
  instances: linear search and binary search both return, with the same circuit and the
  same depth, and no smaller depth gives a non-empty mapping. Nothing is said of the two
  solver-call counts.
\<close>

theorem binary_and_linear_search_agree:
  assumes "simple_graph A" "edges A \<noteq> {}" "ec_oracle s A sb" "sat_oracle s A sb"
  shows "(\<exists>circ D k1 k2.
            ec_linear_search s A sb = Inr (circ, D, k1)
          \<and> ec_binary_search s A sb = Some (Inr (circ, D, k2))
          \<and> nonempty_result (ec_synthesis s A D sb)
          \<and> (\<forall>d<D. \<not> nonempty_result (ec_synthesis s A d sb)))
       \<and> (\<exists>circ D k1 k2.
            sat_linear_search s A sb = Inr (circ, D, k1)
          \<and> sat_binary_search s A sb = Some (Inr (circ, D, k2))
          \<and> nonempty_result (sat_synthesis s A D sb)
          \<and> (\<forall>d<D. \<not> nonempty_result (sat_synthesis s A d sb)))"
proof
  note sg = assms(1) and e = assms(2)
  obtain lo D calls where r: "max_outgoing_connections A = Inr lo"
      "ec_synthesis s A D sb = Inr (ec_out s A sb D)" "ec_out s A sb D \<noteq> []"
      "\<forall>d. lo \<le> d \<and> d < D \<longrightarrow> ec_synthesis s A d sb = Inr []"
      "ec_linear_search s A sb = Inr (circuit_of A (ec_out s A sb D), D, nat (D - lo + 1))"
      "ec_binary_search s A sb = Some (Inr (circuit_of A (ec_out s A sb D), D, calls))"
    using ec_searches [OF sg e assms(3)] by blast
  have "nonempty_result (ec_synthesis s A D sb)"
    using r(2,3) by (simp add: nonempty_result_def)
  moreover have "\<forall>d<D. \<not> nonempty_result (ec_synthesis s A d sb)"
    using ec_minimal [OF sg e assms(3) r(1) r(4)] by blast
  ultimately show "\<exists>circ D k1 k2.
            ec_linear_search s A sb = Inr (circ, D, k1)
          \<and> ec_binary_search s A sb = Some (Inr (circ, D, k2))
          \<and> nonempty_result (ec_synthesis s A D sb)
          \<and> (\<forall>d<D. \<not> nonempty_result (ec_synthesis s A d sb))"
    using r(5,6) by blast
next
  note sg = assms(1) and e = assms(2)
  obtain D calls where r:
      "sat_synthesis s A D sb = Inr (sat_out s A sb D)" "sat_out s A sb D \<noteq> []"
      "\<forall>d. 0 \<le> d \<and> d < D \<longrightarrow> sat_synthesis s A d sb = Inr []"
      "sat_linear_search s A sb = Inr (circuit_of A (sat_out s A sb D), D, nat (D + 1))"
      "sat_binary_search s A sb = Some (Inr (circuit_of A (sat_out s A sb D), D, calls))"
    using sat_searches [OF sg e assms(4)] by blast
  have "nonempty_result (sat_synthesis s A D sb)"
    using r(1,2) by (simp add: nonempty_result_def)
  moreover have "\<forall>d<D. \<not> nonempty_result (sat_synthesis s A d sb)"
    using sat_minimal [OF sg e assms(4) r(3)] by blast
  ultimately show "\<exists>circ D k1 k2.
            sat_linear_search s A sb = Inr (circ, D, k1)
          \<and> sat_binary_search s A sb = Some (Inr (circ, D, k2))
          \<and> nonempty_result (sat_synthesis s A D sb)
          \<and> (\<forall>d<D. \<not> nonempty_result (sat_synthesis s A d sb))"
    using r(4,5) by blast
qed

theorem binary_and_linear_search_agree_witness:
  "simple_graph path_graph \<and> edges path_graph \<noteq> {}
   \<and> ec_oracle (try_models [swap_model]) path_graph False
   \<and> sat_oracle (try_models [swap_model]) path_graph False
   \<and> (\<exists>circ D k1 k2.
          sat_linear_search (try_models [swap_model]) path_graph False = Inr (circ, D, k1)
        \<and> sat_binary_search (try_models [swap_model]) path_graph False = Some (Inr (circ, D, k2)))"
proof -
  have e: "edges path_graph \<noteq> {}" by (simp add: edges_path_graph)
  have "\<exists>circ D k1 k2.
          sat_linear_search (try_models [swap_model]) path_graph False = Inr (circ, D, k1)
        \<and> sat_binary_search (try_models [swap_model]) path_graph False = Some (Inr (circ, D, k2))"
    using binary_and_linear_search_agree [OF simple_path_graph e ec_oracle_path sat_oracle_path]
    by blast
  then show ?thesis
    using simple_path_graph e ec_oracle_path sat_oracle_path by simp
qed

text \<open>
  C4. On a simple graph, for either encoder and every depth bound, with a solver that
  answers correctly on the graph's instances: the encoder returns a non-empty mapping
  with symmetry breaking exactly when it does without. The constraints themselves are
  satisfiable with symmetry breaking exactly when they are without; for the
  edge-colouring encoder this needs a graph with at least one node, since on the empty
  matrix its symmetry-breaking pass raises before any instance exists.
\<close>

theorem symmetry_breaking_preserves_satisfiability:
  assumes "simple_graph A" "ec_oracle s A True" "ec_oracle s A False"
    and "sat_oracle s A True" "sat_oracle s A False"
  shows "(nonempty_result (ec_synthesis s A d True) \<longleftrightarrow> nonempty_result (ec_synthesis s A d False))
       \<and> (nonempty_result (sat_synthesis s A d True) \<longleftrightarrow> nonempty_result (sat_synthesis s A d False))
       \<and> (sat_satisfiable A d True \<longleftrightarrow> sat_satisfiable A d False)
       \<and> (A \<noteq> [] \<longrightarrow> (ec_satisfiable A d True \<longleftrightarrow> ec_satisfiable A d False))"
proof -
  note sg = assms(1)
  have 1: "nonempty_result (ec_synthesis s A d True) \<longleftrightarrow> nonempty_result (ec_synthesis s A d False)"
  proof (cases "A = []")
    case True
    then show ?thesis using ec_synthesis_no_nodes by simp
  next
    case False
    then show ?thesis
      by (simp add: ec_nonempty_iff [OF sg _ assms(2)] ec_nonempty_iff [OF sg _ assms(3)])
  qed
  have 2: "nonempty_result (sat_synthesis s A d True) \<longleftrightarrow> nonempty_result (sat_synthesis s A d False)"
    by (simp add: sat_nonempty_iff [OF sg assms(4)] sat_nonempty_iff [OF sg assms(5)])
  have 3: "sat_satisfiable A d True \<longleftrightarrow> sat_satisfiable A d False"
    by (simp add: sat_satisfiable_iff [OF sg])
  have 4: "A \<noteq> [] \<longrightarrow> (ec_satisfiable A d True \<longleftrightarrow> ec_satisfiable A d False)"
    by (simp add: ec_satisfiable_iff [OF sg])
  from 1 2 3 4 show ?thesis by simp
qed

theorem symmetry_breaking_preserves_satisfiability_witness:
  "simple_graph pair_graph
   \<and> ec_oracle (try_models [zero_model]) pair_graph True
   \<and> ec_oracle (try_models [zero_model]) pair_graph False
   \<and> sat_oracle (try_models [zero_model]) pair_graph True
   \<and> sat_oracle (try_models [zero_model]) pair_graph False
   \<and> nonempty_result (ec_synthesis (try_models [zero_model]) pair_graph 1 True)"
  using symmetry_breaking_preserves_satisfiability [OF simple_pair_graph ec_oracle_pair
      ec_oracle_pair sat_oracle_pair sat_oracle_pair, where d = 1]
    simple_pair_graph ec_oracle_pair sat_oracle_pair ec_synthesis_pair_plain
  by simp

text \<open>
  C5. On a simple graph with at least one edge, for either encoder, with a solver that
  answers correctly on the graph's instances: the instance at depth equal to the node
  count is satisfiable and the encoder returns a non-empty mapping there. Linear search
  leaves its loop through \<open>break\<close>, holding the dictionary the encoder returned at the
  depth it stopped at (never the initial empty list); binary search leaves its loop
  (it does not run forever) with the dictionary the encoder returned at the depth it
  reports. In both, that depth is at most the node count, the dictionary is non-empty
  and its layers are a valid schedule of the graph, and the search returns the circuit
  of that dictionary. A valid schedule of a graph with an edge has a gate for every
  edge, so that circuit is not the bare layer of Hadamard gates. Both entry points
  return a result, never an exception, with every search.
\<close>

theorem search_never_exhausts_bound:
  assumes "simple_graph A" "edges A \<noteq> {}" "ec_oracle s A sb" "sat_oracle s A sb"
  shows "ec_satisfiable A (int (length A)) sb
       \<and> sat_satisfiable A (int (length A)) sb
       \<and> nonempty_result (ec_synthesis s A (int (length A)) sb)
       \<and> nonempty_result (sat_synthesis s A (int (length A)) sb)
       \<and> (\<exists>st M. ec_linear_run s A sb = Inr st \<and> ls_mapping st = Some M \<and> M \<noteq> []
                 \<and> ls_depth st \<le> int (length A)
                 \<and> ec_synthesis s A (ls_depth st) sb = Inr M \<and> valid_schedule A M
                 \<and> ec_linear_search s A sb
                     = Inr (circuit_of A M, ls_depth st, ls_solver_calls st))
       \<and> (\<exists>st M. sat_linear_run s A sb = Inr st \<and> ls_mapping st = Some M \<and> M \<noteq> []
                 \<and> ls_depth st \<le> int (length A)
                 \<and> sat_synthesis s A (ls_depth st) sb = Inr M \<and> valid_schedule A M
                 \<and> sat_linear_search s A sb
                     = Inr (circuit_of A M, ls_depth st, ls_solver_calls st))
       \<and> (\<exists>lo M D k. max_outgoing_connections A = Inr lo
                 \<and> binary_run (\<lambda>d. ec_synthesis s A d sb) lo (int (length A))
                     = Some (Inr (M, D, k))
                 \<and> M \<noteq> [] \<and> D \<le> int (length A)
                 \<and> ec_synthesis s A D sb = Inr M \<and> valid_schedule A M
                 \<and> ec_binary_search s A sb = Some (Inr (circuit_of A M, D, k)))
       \<and> (\<exists>M D k. binary_run (\<lambda>d. sat_synthesis s A d sb) 0 (int (length A))
                     = Some (Inr (M, D, k))
                 \<and> M \<noteq> [] \<and> D \<le> int (length A)
                 \<and> sat_synthesis s A D sb = Inr M \<and> valid_schedule A M
                 \<and> sat_binary_search s A sb = Some (Inr (circuit_of A M, D, k)))
       \<and> (\<forall>M. valid_schedule A M \<longrightarrow>
               M \<noteq> [] \<and> layer_edges M \<noteq> []
             \<and> count_two_qubit_gates (circuit_of A M) = card (edges A) \<and> 0 < card (edges A))
       \<and> (extract_adjacency_matrix (name c) = Inr A \<longrightarrow>
             (\<exists>circ res. synthesize_graph_state_edge_colouring s draw t0 t1 c sb lin
                            = Some (Inr (circ, res))
                 \<and> r_depth res \<le> int (length A) \<and> r_two_qubit_gates res = card (edges A))
           \<and> (\<exists>circ res. synthesize_graph_state_sat_solver s draw t0 t1 c sb lin
                            = Some (Inr (circ, res))
                 \<and> r_depth res \<le> int (length A) \<and> r_two_qubit_gates res = card (edges A)))"
proof -
  note sg = assms(1) and e = assms(2)
  have ne: "A \<noteq> []" using e by (rule edges_nonempty_matrix)
  have nz: "\<not> all_zero A" by (rule not_all_zero [OF sg e])
  obtain lo D calls where r: "max_outgoing_connections A = Inr lo" "lo \<le> D"
      "D \<le> int (length A)"
      "ec_synthesis s A D sb = Inr (ec_out s A sb D)" "ec_out s A sb D \<noteq> []"
      "schedule_of A D (ec_out s A sb D)"
      "ec_linear_run s A sb =
         Inr \<lparr>ls_depth = D, ls_solver_calls = nat (D - lo + 1),
              ls_mapping = Some (ec_out s A sb D), ls_probed = [lo..D]\<rparr>"
      "ec_linear_search s A sb = Inr (circuit_of A (ec_out s A sb D), D, nat (D - lo + 1))"
      "ec_binary_search s A sb = Some (Inr (circuit_of A (ec_out s A sb D), D, calls))"
      "binary_run (\<lambda>d. ec_synthesis s A d sb) lo (int (length A))
          = Some (Inr (ec_out s A sb D, D, calls))"
    using ec_searches [OF sg e assms(3)] by blast
  obtain D' calls' where r': "D' \<le> int (length A)"
      "sat_synthesis s A D' sb = Inr (sat_out s A sb D')" "sat_out s A sb D' \<noteq> []"
      "schedule_of A D' (sat_out s A sb D')"
      "sat_linear_run s A sb =
         Inr \<lparr>ls_depth = D', ls_solver_calls = nat (D' + 1),
              ls_mapping = Some (sat_out s A sb D'), ls_probed = [0..D']\<rparr>"
      "sat_linear_search s A sb = Inr (circuit_of A (sat_out s A sb D'), D', nat (D' + 1))"
      "sat_binary_search s A sb = Some (Inr (circuit_of A (sat_out s A sb D'), D', calls'))"
      "binary_run (\<lambda>d. sat_synthesis s A d sb) 0 (int (length A))
          = Some (Inr (sat_out s A sb D', D', calls'))"
    using sat_searches [OF sg e assms(4)] by blast
  have v: "valid_schedule A (ec_out s A sb D)" by (rule schedule_valid [OF r(6)])
  have v': "valid_schedule A (sat_out s A sb D')" by (rule schedule_valid [OF r'(4)])
  have 1: "ec_satisfiable A (int (length A)) sb"
    by (simp add: ec_satisfiable_iff [OF sg ne] colourable_nodes)
  have 2: "sat_satisfiable A (int (length A)) sb"
    by (simp add: sat_satisfiable_iff [OF sg] colourable_nodes)
  have 3: "nonempty_result (ec_synthesis s A (int (length A)) sb)"
    by (simp add: ec_nonempty_iff [OF sg ne assms(3)] colourable_nodes e)
  have 4: "nonempty_result (sat_synthesis s A (int (length A)) sb)"
    by (simp add: sat_nonempty_iff [OF sg assms(4)] colourable_nodes e)
  have 5: "\<exists>st M. ec_linear_run s A sb = Inr st \<and> ls_mapping st = Some M \<and> M \<noteq> []
                 \<and> ls_depth st \<le> int (length A)
                 \<and> ec_synthesis s A (ls_depth st) sb = Inr M \<and> valid_schedule A M
                 \<and> ec_linear_search s A sb
                     = Inr (circuit_of A M, ls_depth st, ls_solver_calls st)"
    using r(3,4,5,8) v by (simp add: r(7))
  have 6: "\<exists>st M. sat_linear_run s A sb = Inr st \<and> ls_mapping st = Some M \<and> M \<noteq> []
                 \<and> ls_depth st \<le> int (length A)
                 \<and> sat_synthesis s A (ls_depth st) sb = Inr M \<and> valid_schedule A M
                 \<and> sat_linear_search s A sb
                     = Inr (circuit_of A M, ls_depth st, ls_solver_calls st)"
    using r'(1,2,3,6) v' by (simp add: r'(5))
  have 7: "\<exists>lo M D k. max_outgoing_connections A = Inr lo
                 \<and> binary_run (\<lambda>d. ec_synthesis s A d sb) lo (int (length A))
                     = Some (Inr (M, D, k))
                 \<and> M \<noteq> [] \<and> D \<le> int (length A)
                 \<and> ec_synthesis s A D sb = Inr M \<and> valid_schedule A M
                 \<and> ec_binary_search s A sb = Some (Inr (circuit_of A M, D, k))"
    using r(1,10,5,3,4) v r(9) by blast
  have 8: "\<exists>M D k. binary_run (\<lambda>d. sat_synthesis s A d sb) 0 (int (length A))
                     = Some (Inr (M, D, k))
                 \<and> M \<noteq> [] \<and> D \<le> int (length A)
                 \<and> sat_synthesis s A D sb = Inr M \<and> valid_schedule A M
                 \<and> sat_binary_search s A sb = Some (Inr (circuit_of A M, D, k))"
    using r'(8,3,1,2) v' r'(7) by blast
  have 9: "\<forall>M. valid_schedule A M \<longrightarrow>
               M \<noteq> [] \<and> layer_edges M \<noteq> []
             \<and> count_two_qubit_gates (circuit_of A M) = card (edges A) \<and> 0 < card (edges A)"
    using valid_schedule_nonempty [OF _ e] by blast
  have g: "count_two_qubit_gates (circuit_of A (ec_out s A sb D)) = card (edges A)"
    by (rule valid_schedule_nonempty(3) [OF v e])
  have g': "count_two_qubit_gates (circuit_of A (sat_out s A sb D')) = card (edges A)"
    by (rule valid_schedule_nonempty(3) [OF v' e])
  have 10: "extract_adjacency_matrix (name c) = Inr A \<longrightarrow>
             (\<exists>circ res. synthesize_graph_state_edge_colouring s draw t0 t1 c sb lin
                            = Some (Inr (circ, res))
                 \<and> r_depth res \<le> int (length A) \<and> r_two_qubit_gates res = card (edges A))
           \<and> (\<exists>circ res. synthesize_graph_state_sat_solver s draw t0 t1 c sb lin
                            = Some (Inr (circ, res))
                 \<and> r_depth res \<le> int (length A) \<and> r_two_qubit_gates res = card (edges A))"
  proof (intro impI conjI)
    assume x: "extract_adjacency_matrix (name c) = Inr A"
    show "\<exists>circ res. synthesize_graph_state_edge_colouring s draw t0 t1 c sb lin
                            = Some (Inr (circ, res))
                 \<and> r_depth res \<le> int (length A) \<and> r_two_qubit_gates res = card (edges A)"
      using nz r(3) g
      by (cases lin)
        (simp_all add: synthesize_graph_state_edge_colouring_def x finish_def
          search_result_def r(8,9))
    show "\<exists>circ res. synthesize_graph_state_sat_solver s draw t0 t1 c sb lin
                            = Some (Inr (circ, res))
                 \<and> r_depth res \<le> int (length A) \<and> r_two_qubit_gates res = card (edges A)"
      using nz r'(1) g'
      by (cases lin)
        (simp_all add: synthesize_graph_state_sat_solver_def x finish_def
          search_result_def r'(6,7))
  qed
  show ?thesis
    by (intro conjI) (rule 1 2 3 4 5 6 7 8 9 10)+
qed

theorem search_never_exhausts_bound_witness:
  "simple_graph path_graph \<and> edges path_graph \<noteq> {}
   \<and> ec_oracle (try_models [swap_model]) path_graph False
   \<and> sat_oracle (try_models [swap_model]) path_graph False
   \<and> ec_satisfiable path_graph 3 False
   \<and> nonempty_result (sat_synthesis (try_models [swap_model]) path_graph 3 False)
   \<and> (\<exists>M D k. binary_run (\<lambda>d. sat_synthesis (try_models [swap_model]) path_graph d False) 0 3
                  = Some (Inr (M, D, k))
             \<and> M \<noteq> [] \<and> D \<le> 3 \<and> valid_schedule path_graph M
             \<and> sat_binary_search (try_models [swap_model]) path_graph False
                 = Some (Inr (circuit_of path_graph M, D, k)))"
proof -
  have e: "edges path_graph \<noteq> {}" by (simp add: edges_path_graph)
  have l: "int (length path_graph) = 3" by (simp add: path_graph_def)
  note th = search_never_exhausts_bound [OF simple_path_graph e ec_oracle_path sat_oracle_path]
  have a: "ec_satisfiable path_graph 3 False"
    using th [THEN conjunct1] unfolding l .
  have b: "nonempty_result (sat_synthesis (try_models [swap_model]) path_graph 3 False)"
    using th [THEN conjunct2, THEN conjunct2, THEN conjunct2, THEN conjunct1] unfolding l .
  have "\<exists>M D k. binary_run (\<lambda>d. sat_synthesis (try_models [swap_model]) path_graph d False) 0
                    (int (length path_graph)) = Some (Inr (M, D, k))
             \<and> M \<noteq> [] \<and> D \<le> int (length path_graph)
             \<and> sat_synthesis (try_models [swap_model]) path_graph D False = Inr M
             \<and> valid_schedule path_graph M
             \<and> sat_binary_search (try_models [swap_model]) path_graph False
                 = Some (Inr (circuit_of path_graph M, D, k))"
    by (rule th [THEN conjunct2, THEN conjunct2, THEN conjunct2, THEN conjunct2,
          THEN conjunct2, THEN conjunct2, THEN conjunct2, THEN conjunct1])
  then have c: "\<exists>M D k. binary_run (\<lambda>d. sat_synthesis (try_models [swap_model]) path_graph d False) 0 3
                  = Some (Inr (M, D, k))
             \<and> M \<noteq> [] \<and> D \<le> 3 \<and> valid_schedule path_graph M
             \<and> sat_binary_search (try_models [swap_model]) path_graph False
                 = Some (Inr (circuit_of path_graph M, D, k))"
    unfolding l by blast
  show ?thesis
    by (intro conjI) (rule simple_path_graph e ec_oracle_path sat_oracle_path a b c)+
qed

text \<open>
  C6. The claim reads: under the edge-colouring strategy the first depth linear search
  probes is the maximum degree of the graph. On the star with centre 0 and three leaves
  the maximum degree is 3, but \<open>_max_outgoing_connections\<close> counts, per row, only
  the entries up to the diagonal, and gives 1: linear search probes the depths 1, 2, 3
  and makes three solver calls.
\<close>

theorem linear_search_starts_below_max_degree:
  "simple_graph star_graph
   \<and> ec_oracle (try_models [star_model]) star_graph False
   \<and> max_degree star_graph = 3
   \<and> max_outgoing_connections star_graph = Inr 1
   \<and> ec_linear_run (try_models [star_model]) star_graph False =
       Inr \<lparr>ls_depth = 3, ls_solver_calls = 3,
            ls_mapping = Some [(0, [(1, 0)]), (1, [(2, 0)]), (2, [(3, 0)])],
            ls_probed = [1, 2, 3]\<rparr>"
  using simple_star_graph ec_oracle_star max_degree_star max_outgoing_star ec_linear_run_star
  by simp

text \<open>
  C6, amended. On a simple graph with at least one edge, with a solver that answers
  correctly on the graph's instances: under the edge-colouring strategy linear search
  first probes the largest number, over the nodes, of neighbours with a smaller index
  (which is at most the maximum degree), under the direct-scheduling strategy it first
  probes 0; it then probes the successive depths, one solver call per probed depth, up
  to the first depth at which the encoder returns a non-empty mapping, where it stops.
\<close>

theorem linear_search_probes:
  assumes "simple_graph A" "edges A \<noteq> {}" "ec_oracle s A sb" "sat_oracle s A sb"
  shows "(\<exists>lo st. max_outgoing_connections A = Inr lo
            \<and> (\<forall>i<length A. int (lower_degree A i) \<le> lo)
            \<and> (\<exists>i<length A. lo = int (lower_degree A i))
            \<and> lo \<le> int (max_degree A)
            \<and> ec_linear_run s A sb = Inr st
            \<and> ls_probed st = [lo..ls_depth st] \<and> lo \<le> ls_depth st
            \<and> ls_solver_calls st = length (ls_probed st)
            \<and> nonempty_result (ec_synthesis s A (ls_depth st) sb)
            \<and> (\<forall>d. lo \<le> d \<and> d < ls_depth st \<longrightarrow> ec_synthesis s A d sb = Inr []))
       \<and> (\<exists>st. sat_linear_run s A sb = Inr st
            \<and> ls_probed st = [0..ls_depth st] \<and> 0 \<le> ls_depth st
            \<and> ls_solver_calls st = length (ls_probed st)
            \<and> nonempty_result (sat_synthesis s A (ls_depth st) sb)
            \<and> (\<forall>d. 0 \<le> d \<and> d < ls_depth st \<longrightarrow> sat_synthesis s A d sb = Inr []))"
proof
  note sg = assms(1) and e = assms(2)
  have ne: "A \<noteq> []" using e by (rule edges_nonempty_matrix)
  obtain lo D where r: "max_outgoing_connections A = Inr lo" "lo \<le> D"
      "ec_synthesis s A D sb = Inr (ec_out s A sb D)" "ec_out s A sb D \<noteq> []"
      "\<forall>d. lo \<le> d \<and> d < D \<longrightarrow> ec_synthesis s A d sb = Inr []"
      "ec_linear_run s A sb =
         Inr \<lparr>ls_depth = D, ls_solver_calls = nat (D - lo + 1),
              ls_mapping = Some (ec_out s A sb D), ls_probed = [lo..D]\<rparr>"
    using ec_searches [OF sg e assms(3)] by blast
  let ?st = "\<lparr>ls_depth = D, ls_solver_calls = nat (D - lo + 1),
              ls_mapping = Some (ec_out s A sb D), ls_probed = [lo..D]\<rparr>"
  have "nonempty_result (ec_synthesis s A (ls_depth ?st) sb)"
    using r(3,4) by (simp add: nonempty_result_def)
  moreover have "ls_solver_calls ?st = length (ls_probed ?st)"
    by simp
  ultimately show "\<exists>lo st. max_outgoing_connections A = Inr lo
            \<and> (\<forall>i<length A. int (lower_degree A i) \<le> lo)
            \<and> (\<exists>i<length A. lo = int (lower_degree A i))
            \<and> lo \<le> int (max_degree A)
            \<and> ec_linear_run s A sb = Inr st
            \<and> ls_probed st = [lo..ls_depth st] \<and> lo \<le> ls_depth st
            \<and> ls_solver_calls st = length (ls_probed st)
            \<and> nonempty_result (ec_synthesis s A (ls_depth st) sb)
            \<and> (\<forall>d. lo \<le> d \<and> d < ls_depth st \<longrightarrow> ec_synthesis s A d sb = Inr [])"
    using max_outgoing_is_max [OF r(1) sg ne] max_outgoing_le_degree [OF r(1) sg] r(1,2,5,6)
    by (intro exI [of _ lo] exI [of _ ?st]) simp
next
  note sg = assms(1) and e = assms(2)
  obtain D where r: "0 \<le> D"
      "sat_synthesis s A D sb = Inr (sat_out s A sb D)" "sat_out s A sb D \<noteq> []"
      "\<forall>d. 0 \<le> d \<and> d < D \<longrightarrow> sat_synthesis s A d sb = Inr []"
      "sat_linear_run s A sb =
         Inr \<lparr>ls_depth = D, ls_solver_calls = nat (D + 1),
              ls_mapping = Some (sat_out s A sb D), ls_probed = [0..D]\<rparr>"
    using sat_searches [OF sg e assms(4)] by blast
  let ?st = "\<lparr>ls_depth = D, ls_solver_calls = nat (D + 1),
              ls_mapping = Some (sat_out s A sb D), ls_probed = [0..D]\<rparr>"
  have "nonempty_result (sat_synthesis s A (ls_depth ?st) sb)"
    using r(2,3) by (simp add: nonempty_result_def)
  moreover have "ls_solver_calls ?st = length (ls_probed ?st)"
    by simp
  ultimately show "\<exists>st. sat_linear_run s A sb = Inr st
            \<and> ls_probed st = [0..ls_depth st] \<and> 0 \<le> ls_depth st
            \<and> ls_solver_calls st = length (ls_probed st)
            \<and> nonempty_result (sat_synthesis s A (ls_depth st) sb)
            \<and> (\<forall>d. 0 \<le> d \<and> d < ls_depth st \<longrightarrow> sat_synthesis s A d sb = Inr [])"
    using r(1,4,5) by (intro exI [of _ ?st]) simp
qed

theorem linear_search_probes_witness:
  "simple_graph pair_graph \<and> edges pair_graph \<noteq> {}
   \<and> ec_oracle (try_models [zero_model]) pair_graph False
   \<and> sat_oracle (try_models [zero_model]) pair_graph False
   \<and> (\<exists>st. sat_linear_run (try_models [zero_model]) pair_graph False = Inr st
          \<and> ls_probed st = [0..ls_depth st]
          \<and> ls_solver_calls st = length (ls_probed st))"
proof -
  have e: "edges pair_graph \<noteq> {}" by (simp add: edges_pair_graph)
  have "\<exists>st. sat_linear_run (try_models [zero_model]) pair_graph False = Inr st
          \<and> ls_probed st = [0..ls_depth st]
          \<and> ls_solver_calls st = length (ls_probed st)"
    using linear_search_probes [OF simple_pair_graph e ec_oracle_pair sat_oracle_pair,
        where sb = False]
    by blast
  then show ?thesis
    using simple_pair_graph e ec_oracle_pair sat_oracle_pair by simp
qed

text \<open>
  C7. The claim reads: after the Hadamard gates, the two-qubit gates come layer by
  layer in increasing layer-index order. The materialiser iterates the dictionary, which
  yields the layers in the order their indices were first inserted. On the path with
  three nodes a correct solver may colour the first edge 1 and the second edge 0; the
  encoder then returns layer 1 before layer 0, and the circuit has the gate of layer 1
  first.
\<close>

theorem materializer_emits_later_layer_first:
  "ec_oracle (try_models [swap_model]) path_graph False
   \<and> ec_synthesis (try_models [swap_model]) path_graph 2 False = Inr swapped_mapping
   \<and> map_synthesis_depth_optimal_mapping_to_qcircuit (Some swapped_mapping) path_graph =
       Inr \<lparr>num_qubits = 3,
            name = ''Depth optimal circuit of Graphstate g: [[0, 1, 0], [1, 0, 1], [0, 1, 0]]'',
            data = [(''h'', [0]), (''h'', [1]), (''h'', [2]), (''cz'', [1, 0]), (''cz'', [2, 1])]\<rparr>
   \<and> sort_key fst swapped_mapping = [(0, [(2, 1)]), (1, [(1, 0)])]"
proof -
  have "ec_synthesis (try_models [swap_model]) path_graph 2 False = Inr swapped_mapping"
    by code_simp
  moreover have "map_synthesis_depth_optimal_mapping_to_qcircuit (Some swapped_mapping) path_graph =
       Inr \<lparr>num_qubits = 3,
            name = ''Depth optimal circuit of Graphstate g: [[0, 1, 0], [1, 0, 1], [0, 1, 0]]'',
            data = [(''h'', [0]), (''h'', [1]), (''h'', [2]), (''cz'', [1, 0]), (''cz'', [2, 1])]\<rparr>"
    by code_simp
  moreover have "sort_key fst swapped_mapping = [(0, [(2, 1)]), (1, [(1, 0)])]"
    by code_simp
  ultimately show ?thesis using ec_oracle_path by simp
qed

text \<open>
  C7, amended. For every layer-to-edges mapping whose edges join two different nodes
  below the node count \<open>n \<ge> 1\<close>, the materialiser returns a circuit on \<open>n\<close> qubits
  that first has a Hadamard gate on each of the qubits 0, ..., n - 1 and then the
  two-qubit gates grouped by layer, the layers in the order the mapping holds them
  (which is the increasing order when the mapping's keys are increasing); for the empty
  mapping the circuit has the Hadamard gates only.
\<close>

theorem materializer_layers_in_mapping_order:
  assumes "A \<noteq> []" "valid_edges (length A) (layer_edges M)"
  shows "(\<exists>c. map_synthesis_depth_optimal_mapping_to_qcircuit (Some M) A = Inr c
            \<and> num_qubits c = length A
            \<and> name c = ''Depth optimal circuit of Graphstate g: '' @ str_matrix A
            \<and> data c = map (\<lambda>q. (''h'', [q])) [0..<length A]
                       @ concat (map (\<lambda>(l, es). map (\<lambda>e. (''cz'', [fst e, snd e])) es) M))
       \<and> (\<exists>c. map_synthesis_depth_optimal_mapping_to_qcircuit (Some []) A = Inr c
            \<and> data c = map (\<lambda>q. (''h'', [q])) [0..<length A])
       \<and> (sorted (map fst M) \<longrightarrow> sort_key fst M = M)"
proof (intro conjI)
  show "\<exists>c. map_synthesis_depth_optimal_mapping_to_qcircuit (Some M) A = Inr c
            \<and> num_qubits c = length A
            \<and> name c = ''Depth optimal circuit of Graphstate g: '' @ str_matrix A
            \<and> data c = map (\<lambda>q. (''h'', [q])) [0..<length A]
                       @ concat (map (\<lambda>(l, es). map (\<lambda>e. (''cz'', [fst e, snd e])) es) M)"
    by (intro exI [of _ "circuit_of A M"])
      (simp add: materialize_valid [OF assms] circuit_of_def h_instructions_def
        cz_instructions_layers)
  have "valid_edges (length A) (layer_edges [])" by (simp add: valid_edges_def)
  then show "\<exists>c. map_synthesis_depth_optimal_mapping_to_qcircuit (Some []) A = Inr c
            \<and> data c = map (\<lambda>q. (''h'', [q])) [0..<length A]"
    by (intro exI [of _ "circuit_of A []"])
      (simp add: materialize_valid [OF assms(1)] circuit_of_def h_instructions_def
        cz_instructions_def)
  show "sorted (map fst M) \<longrightarrow> sort_key fst M = M"
    by (simp add: sort_key_id_if_sorted)
qed

theorem materializer_layers_in_mapping_order_witness:
  "path_graph \<noteq> [] \<and> valid_edges (length path_graph) (layer_edges swapped_mapping)
   \<and> (\<exists>c. map_synthesis_depth_optimal_mapping_to_qcircuit (Some swapped_mapping) path_graph
            = Inr c
          \<and> data c = [(''h'', [0]), (''h'', [1]), (''h'', [2]), (''cz'', [1, 0]), (''cz'', [2, 1])])"
proof -
  have ne: "path_graph \<noteq> []" by (simp add: path_graph_def)
  have v: "valid_edges (length path_graph) (layer_edges swapped_mapping)"
    by (simp add: valid_edges_def swapped_mapping_def path_graph_def)
  have l: "length path_graph = 3" by (simp add: path_graph_def)
  have u: "[0..<3] = [0, 1, 2]" by (simp add: upt_rec)
  have "\<exists>c. map_synthesis_depth_optimal_mapping_to_qcircuit (Some swapped_mapping) path_graph
            = Inr c
          \<and> data c = [(''h'', [0]), (''h'', [1]), (''h'', [2]), (''cz'', [1, 0]), (''cz'', [2, 1])]"
    using materializer_layers_in_mapping_order [OF ne v]
    by (auto simp: l u swapped_mapping_def)
  then show ?thesis using ne v by simp
qed

text \<open>
  C8. When the matrix read from the circuit's name is all zeros, both entry points return
  at once, whatever the solver: the input circuit itself, depth 0, no solver call,
  runtime 0, and the gate counts of the input circuit.
\<close>

theorem all_zero_short_circuit:
  assumes "extract_adjacency_matrix (name c) = Inr A" "all_zero A"
  shows "synthesize_graph_state_edge_colouring s draw t0 t1 c sb lin =
           Some (Inr (c, trivial_result draw c))
       \<and> synthesize_graph_state_sat_solver s draw t0 t1 c sb lin =
           Some (Inr (c, trivial_result draw c))
       \<and> r_depth (trivial_result draw c) = 0
       \<and> r_solver_calls (trivial_result draw c) = 0
       \<and> r_runtime (trivial_result draw c) = 0
       \<and> r_single_qubit_gates (trivial_result draw c) = count_single_qubit_gates c
       \<and> r_two_qubit_gates (trivial_result draw c) = count_two_qubit_gates c
       \<and> r_gates (trivial_result draw c) = count_single_qubit_gates c + count_two_qubit_gates c"
  using assms
  by (simp add: synthesize_graph_state_edge_colouring_def synthesize_graph_state_sat_solver_def
      trivial_result_def)

theorem all_zero_short_circuit_witness:
  "extract_adjacency_matrix (name empty_graph_circuit) = Inr [[0, 0], [0, 0]]
   \<and> all_zero [[0, 0], [0, 0]]
   \<and> synthesize_graph_state_edge_colouring (\<lambda>cs. None) (\<lambda>c. name c) 0 1 empty_graph_circuit
        False True = Some (Inr (empty_graph_circuit, trivial_result (\<lambda>c. name c) empty_graph_circuit))
   \<and> r_gates (trivial_result (\<lambda>c. name c) empty_graph_circuit) = 2"
proof -
  have z: "all_zero [[0, 0], [0, 0]]"
    by (simp add: all_zero_def)
  have "count_single_qubit_gates empty_graph_circuit + count_two_qubit_gates empty_graph_circuit = 2"
    by (simp add: count_single_qubit_gates_def count_two_qubit_gates_def empty_graph_circuit_def)
  then show ?thesis
    using z extract_empty_graph_circuit
      all_zero_short_circuit [OF extract_empty_graph_circuit z,
        of "\<lambda>cs. None" "\<lambda>c. name c" 0 1 False True]
    by simp
qed

text \<open>
  C9. The claim, for the graph on two nodes with one edge and symmetry breaking off,
  reads: depth 1, one two-qubit gate, three gates in all, and one solver call, with
  either search. The direct-scheduling entry point makes two solver calls, because its
  searches start from depth 0: linear search probes 0 and 1, binary search probes 1 and
  then 0.
\<close>

theorem two_node_graph_sat_solver_calls:
  "extract_adjacency_matrix (name pair_circuit) = Inr pair_graph
   \<and> sat_oracle (try_models [zero_model]) pair_graph False
   \<and> observed (synthesize_graph_state_sat_solver (try_models [zero_model]) (\<lambda>c. name c) 0 1
         pair_circuit False True) = Some (1, 2, 1, 3, 2)
   \<and> observed (synthesize_graph_state_sat_solver (try_models [zero_model]) (\<lambda>c. name c) 0 1
         pair_circuit False False) = Some (1, 2, 1, 3, 2)"
  using extract_pair_circuit sat_oracle_pair
    pair_entry_points(2) [OF extract_pair_circuit sat_oracle_pair]
  by simp

text \<open>
  C9, amended. For a circuit named after the graph on two nodes with one edge, symmetry
  breaking off, any solver that answers correctly on the graph's instances, and either
  search: both entry points return depth 1, two single-qubit gates, one two-qubit gate
  and three gates in all; the edge-colouring entry point makes one solver call, the
  direct-scheduling entry point two.
\<close>

theorem two_node_graph_results:
  assumes "extract_adjacency_matrix (name c) = Inr pair_graph"
    and "ec_oracle s pair_graph False" "sat_oracle s pair_graph False"
  shows "observed (synthesize_graph_state_edge_colouring s draw t0 t1 c False lin)
           = Some (1, 2, 1, 3, 1)
       \<and> observed (synthesize_graph_state_sat_solver s draw t0 t1 c False lin)
           = Some (1, 2, 1, 3, 2)"
  using pair_entry_points [OF assms(1)] assms(2,3) by simp

theorem two_node_graph_results_witness:
  "extract_adjacency_matrix (name pair_circuit) = Inr pair_graph
   \<and> ec_oracle (try_models [zero_model]) pair_graph False
   \<and> sat_oracle (try_models [zero_model]) pair_graph False
   \<and> observed (synthesize_graph_state_edge_colouring (try_models [zero_model]) (\<lambda>c. name c) 0 1
         pair_circuit False False) = Some (1, 2, 1, 3, 1)"
  using two_node_graph_results [OF extract_pair_circuit ec_oracle_pair sat_oracle_pair]
    extract_pair_circuit ec_oracle_pair sat_oracle_pair
  by simp

text \<open>
  C10. Names are strings of characters with codes below 256. Both entry points read the
  graph from the circuit's name alone: two circuits with the same name and a matrix that
  is not all zeros give the same result, whatever their gates, and a name whose
  extraction raises an exception gives that exception. \<open>extract_adjacency_matrix\<close>
  scans the name for its maximal runs of digits: the list it finds is the one the
  description of maximal runs gives, its runs are non-empty, hold all the digits of the
  name in order, and a non-empty block of digits with no digit next to it on either side
  is one run, between the runs of what precedes and of what follows. Each run is
  converted to the number it denotes in base ten, unless it has more than 4300 digits:
  then, and only then, the extraction raises \<open>ValueError\<close>. Otherwise, with \<open>n\<close> the
  integer square root of the number of runs, the result has \<open>n\<close> rows of \<open>n\<close>
  numbers, entry \<open>(i, j)\<close> being the number of run \<open>i * n + j\<close>. For every square
  matrix \<open>A\<close> of zeros and ones, and more generally every square matrix \<open>B\<close> of
  non-negative integers rendered with at most 4300 digits, the name the materialiser
  gives its circuit is read back as the matrix.
\<close>

theorem name_matrix_round_trip:
  assumes "square01 A" "square_nat B"
  shows "extract_adjacency_matrix (''Depth optimal circuit of Graphstate g: '' @ str_matrix A)
           = Inr A
       \<and> extract_adjacency_matrix (''Depth optimal circuit of Graphstate g: '' @ str_matrix B)
           = Inr B
       \<and> (\<forall>M c. map_synthesis_depth_optimal_mapping_to_qcircuit M A = Inr c
                  \<longrightarrow> extract_adjacency_matrix (name c) = Inr A)
       \<and> findall_digits [] nm = maximal_digit_runs nm
       \<and> concat (findall_digits [] nm) = filter is_digit nm
       \<and> (\<forall>r\<in>set (findall_digits [] nm). r \<noteq> [] \<and> (\<forall>ch\<in>set r. is_digit ch))
       \<and> (run \<noteq> [] \<and> (\<forall>ch\<in>set run. is_digit ch)
            \<and> (before = [] \<or> \<not> is_digit (last before))
            \<and> (after = [] \<or> \<not> is_digit (hd after))
          \<longrightarrow> findall_digits [] (before @ run @ after)
                = findall_digits [] before @ [run] @ findall_digits [] after)
       \<and> map digit_value ''0123456789'' = [0, 1, 2, 3, 4, 5, 6, 7, 8, 9]
       \<and> decimal_value (str_nat k) = k
       \<and> (\<forall>r\<in>set (findall_digits [] nm).
             py_int r = (if length r \<le> int_max_str_digits then Inr (int (decimal_value r))
                         else Inl ValueError))
       \<and> (let runs = findall_digits [] nm; n = isqrt (length runs) in
            n * n \<le> length runs \<and> length runs < Suc n * Suc n
          \<and> ((\<exists>r\<in>set runs. int_max_str_digits < length r)
               \<longrightarrow> extract_adjacency_matrix nm = Inl ValueError)
          \<and> ((\<forall>r\<in>set runs. length r \<le> int_max_str_digits)
               \<longrightarrow> (\<exists>X. extract_adjacency_matrix nm = Inr X))
          \<and> (\<forall>X. extract_adjacency_matrix nm = Inr X \<longrightarrow>
                 length X = n \<and> (\<forall>row\<in>set X. length row = n)
               \<and> concat X = take (n * n) (map (\<lambda>r. int (decimal_value r)) runs)
               \<and> (\<forall>i<n. \<forall>j<n. X ! i ! j = int (decimal_value (runs ! (i * n + j))))))
       \<and> (name c1 = name c2 \<and> extract_adjacency_matrix (name c1) = Inr X \<and> \<not> all_zero X \<longrightarrow>
              synthesize_graph_state_edge_colouring s draw t0 t1 c1 sb lin
                = synthesize_graph_state_edge_colouring s draw t0 t1 c2 sb lin
            \<and> synthesize_graph_state_sat_solver s draw t0 t1 c1 sb lin
                = synthesize_graph_state_sat_solver s draw t0 t1 c2 sb lin)
       \<and> (extract_adjacency_matrix (name c1) = Inl e \<longrightarrow>
              synthesize_graph_state_edge_colouring s draw t0 t1 c1 sb lin = Some (Inl e)
            \<and> synthesize_graph_state_sat_solver s draw t0 t1 c1 sb lin = Some (Inl e))"
proof -
  let ?runs = "findall_digits [] nm"
  let ?n = "isqrt (length ?runs)"
  have 1: "extract_adjacency_matrix (''Depth optimal circuit of Graphstate g: '' @ str_matrix A)
           = Inr A"
    by (rule extract_round_trip [OF square01_nat [OF assms(1)]])
  have 2: "extract_adjacency_matrix (''Depth optimal circuit of Graphstate g: '' @ str_matrix B)
           = Inr B"
    by (rule extract_round_trip [OF assms(2)])
  have 3: "\<forall>M c. map_synthesis_depth_optimal_mapping_to_qcircuit M A = Inr c
                  \<longrightarrow> extract_adjacency_matrix (name c) = Inr A"
    using materialize_name 1 by simp
  have 4: "findall_digits [] nm = maximal_digit_runs nm"
    by (rule findall_maximal)
  have 5: "concat (findall_digits [] nm) = filter is_digit nm"
    by (simp add: findall_concat)
  have 6: "\<forall>r\<in>set (findall_digits [] nm). r \<noteq> [] \<and> (\<forall>ch\<in>set r. is_digit ch)"
    using findall_runs [of "[]"] by simp
  have 7: "run \<noteq> [] \<and> (\<forall>ch\<in>set run. is_digit ch)
            \<and> (before = [] \<or> \<not> is_digit (last before))
            \<and> (after = [] \<or> \<not> is_digit (hd after))
          \<longrightarrow> findall_digits [] (before @ run @ after)
                = findall_digits [] before @ [run] @ findall_digits [] after"
    using findall_delimited [of run before after] by simp
  have 8: "map digit_value ''0123456789'' = [0, 1, 2, 3, 4, 5, 6, 7, 8, 9]"
    by (simp add: digit_value_def)
  have 9: "decimal_value (str_nat k) = k"
    by (rule decimal_value_str_nat)
  have 10: "\<forall>r\<in>set (findall_digits [] nm).
             py_int r = (if length r \<le> int_max_str_digits then Inr (int (decimal_value r))
                         else Inl ValueError)"
    using py_int_run by blast
  have 11: "?n * ?n \<le> length ?runs \<and> length ?runs < Suc ?n * Suc ?n"
    by (rule isqrt_sandwich)
  have 12: "(\<exists>r\<in>set ?runs. int_max_str_digits < length r)
               \<longrightarrow> extract_adjacency_matrix nm = Inl ValueError"
    using extract_beyond_limit by blast
  have 13: "(\<forall>r\<in>set ?runs. length r \<le> int_max_str_digits)
               \<longrightarrow> (\<exists>X. extract_adjacency_matrix nm = Inr X)"
    using extract_within_limit [of nm] by blast
  have 14: "\<forall>X. extract_adjacency_matrix nm = Inr X \<longrightarrow>
                 length X = ?n \<and> (\<forall>row\<in>set X. length row = ?n)
               \<and> concat X = take (?n * ?n) (map (\<lambda>r. int (decimal_value r)) ?runs)
               \<and> (\<forall>i<?n. \<forall>j<?n. X ! i ! j = int (decimal_value (?runs ! (i * ?n + j))))"
    using extract_shape(1-4) [of nm] by blast
  have 15: "name c1 = name c2 \<and> extract_adjacency_matrix (name c1) = Inr X \<and> \<not> all_zero X \<longrightarrow>
              synthesize_graph_state_edge_colouring s draw t0 t1 c1 sb lin
                = synthesize_graph_state_edge_colouring s draw t0 t1 c2 sb lin
            \<and> synthesize_graph_state_sat_solver s draw t0 t1 c1 sb lin
                = synthesize_graph_state_sat_solver s draw t0 t1 c2 sb lin"
  proof
    assume h: "name c1 = name c2 \<and> extract_adjacency_matrix (name c1) = Inr X \<and> \<not> all_zero X"
    then have x1: "extract_adjacency_matrix (name c1) = Inr X"
      and nz: "\<not> all_zero X" by blast+
    from h have e: "name c2 = name c1" by simp
    have x2: "extract_adjacency_matrix (name c2) = Inr X" unfolding e by (rule x1)
    show "synthesize_graph_state_edge_colouring s draw t0 t1 c1 sb lin
                = synthesize_graph_state_edge_colouring s draw t0 t1 c2 sb lin
            \<and> synthesize_graph_state_sat_solver s draw t0 t1 c1 sb lin
                = synthesize_graph_state_sat_solver s draw t0 t1 c2 sb lin"
      by (simp add: synthesize_graph_state_edge_colouring_def
          synthesize_graph_state_sat_solver_def x1 x2 nz)
  qed
  have 16: "extract_adjacency_matrix (name c1) = Inl e \<longrightarrow>
              synthesize_graph_state_edge_colouring s draw t0 t1 c1 sb lin = Some (Inl e)
            \<and> synthesize_graph_state_sat_solver s draw t0 t1 c1 sb lin = Some (Inl e)"
    by (simp add: synthesize_graph_state_edge_colouring_def
        synthesize_graph_state_sat_solver_def)
  have shape: "(let runs = findall_digits [] nm; n = isqrt (length runs) in
            n * n \<le> length runs \<and> length runs < Suc n * Suc n
          \<and> ((\<exists>r\<in>set runs. int_max_str_digits < length r)
               \<longrightarrow> extract_adjacency_matrix nm = Inl ValueError)
          \<and> ((\<forall>r\<in>set runs. length r \<le> int_max_str_digits)
               \<longrightarrow> (\<exists>X. extract_adjacency_matrix nm = Inr X))
          \<and> (\<forall>X. extract_adjacency_matrix nm = Inr X \<longrightarrow>
                 length X = n \<and> (\<forall>row\<in>set X. length row = n)
               \<and> concat X = take (n * n) (map (\<lambda>r. int (decimal_value r)) runs)
               \<and> (\<forall>i<n. \<forall>j<n. X ! i ! j = int (decimal_value (runs ! (i * n + j))))))"
    unfolding Let_def using 11 12 13 14 by blast
  show ?thesis
    by (intro conjI) (rule 1 2 3 4 5 6 7 8 9 10 shape 15 16)+
qed

theorem name_matrix_round_trip_witness:
  "square01 pair_graph \<and> square_nat [[12, 3], [456, 7]]
   \<and> extract_adjacency_matrix
       (''Depth optimal circuit of Graphstate g: '' @ str_matrix pair_graph) = Inr pair_graph
   \<and> extract_adjacency_matrix ''Depth optimal circuit of Graphstate g: [[12, 3], [456, 7]]''
       = Inr [[12, 3], [456, 7]]
   \<and> findall_digits [] ''a12b3'' = [''12'', ''3'']
   \<and> maximal_digit_runs ''a12b3'' = [''12'', ''3'']
   \<and> extract_adjacency_matrix (replicate 4301 CHR ''1'') = Inl ValueError"
proof -
  have s: "square01 pair_graph" by (simp add: square01_def pair_graph_def)
  have "map str_int [12, 3, 456, 7] = [''12'', ''3'', ''456'', ''7'']"
    by code_simp
  then have r: "str_int 12 = ''12''" "str_int 3 = ''3''" "str_int 456 = ''456''" "str_int 7 = ''7''"
    by simp_all
  have t: "square_nat [[12, 3], [456, 7]]"
    by (simp add: square_nat_def r int_max_str_digits_def)
  have m: "str_matrix [[12, 3], [456, 7]] = ''[[12, 3], [456, 7]]''"
    by (simp add: str_matrix_def str_list_def r)
  have f: "findall_digits [] ''a12b3'' = [''12'', ''3'']"
    by (simp add: is_digit_def)
  note th = name_matrix_round_trip [OF s t, where nm = "''a12b3''"]
  have a: "extract_adjacency_matrix
       (''Depth optimal circuit of Graphstate g: '' @ str_matrix pair_graph) = Inr pair_graph"
    using th by (rule conjunct1)
  have "extract_adjacency_matrix
       (''Depth optimal circuit of Graphstate g: '' @ str_matrix [[12, 3], [456, 7]])
       = Inr [[12, 3], [456, 7]]"
    by (rule th [THEN conjunct2, THEN conjunct1])
  then have b: "extract_adjacency_matrix
       ''Depth optimal circuit of Graphstate g: [[12, 3], [456, 7]]'' = Inr [[12, 3], [456, 7]]"
    unfolding m by simp
  have g: "findall_digits [] ''a12b3'' = maximal_digit_runs ''a12b3''"
    by (rule th [THEN conjunct2, THEN conjunct2, THEN conjunct2, THEN conjunct1])
  have c: "maximal_digit_runs ''a12b3'' = [''12'', ''3'']"
    by (rule trans [OF g [symmetric] f])
  have "findall_digits [] (replicate 4301 CHR ''1'' @ [])
      = replicate 4301 CHR ''1'' # findall_digits [] []"
    by (rule findall_run) (simp_all add: is_digit_def)
  then have long: "findall_digits [] (replicate 4301 CHR ''1'') = [replicate 4301 CHR ''1'']"
    by simp
  have d: "extract_adjacency_matrix (replicate 4301 CHR ''1'') = Inl ValueError"
    using name_matrix_round_trip [OF s t, where nm = "replicate 4301 CHR ''1''",
        THEN conjunct2, THEN conjunct2, THEN conjunct2, THEN conjunct2, THEN conjunct2,
        THEN conjunct2, THEN conjunct2, THEN conjunct2, THEN conjunct2, THEN conjunct2,
        THEN conjunct1]
    unfolding Let_def long by (simp add: int_max_str_digits_def)
  show ?thesis
    by (intro conjI) (rule s t a b f c d)+
qed

end
